theory Spec2Isabelle
  imports Complex_Main
begin

section \<open>The Wright System counting engine (wright.py)\<close>

text \<open>
  Objects of the Python program are identified by their keys: a \<open>Candidate\<close> object by its
  name (one object is created per name, in \<open>add_candidate\<close>), a \<open>Vote\<close> object by its
  ballot id. The fields of all objects live in stores indexed by these keys, so that an
  object that is still referenced from a preference list after it was deleted from the
  \<open>candidates\<close> dictionary keeps its fields, as in Python.

  The dictionary \<open>self.candidates\<close> is the list of its keys in insertion order; the sets
  \<open>self.votes\<close> and \<open>Candidate.votes\<close> are lists without repetition, iterated in list
  order.

  Python floats are idealised as real numbers, so the sums, products and quotients of a
  surplus step are exact in the model where the program rounds. The theorems of the
  claims below rest on comparisons, assignments, membership and on sums of ones, which
  doubles compute exactly for fewer than \<open>2 ^ 53\<close> votes; the concrete elections they
  evaluate have dyadic values, on which doubles are exact too.
\<close>

type_synonym name = string
type_synonym vid = int

text \<open>
  The exceptions the methods can raise: \<open>ValueError\<close> from \<open>min\<close> and \<open>max\<close> of an
  empty sequence, \<open>ZeroDivisionError\<close> from the two divisions, \<open>AttributeError\<close> from
  reading \<open>self.quota\<close> or \<open>self.total_votes\<close> before \<open>distribution_of_preferences\<close>
  has assigned them (or from calling a method on \<open>None\<close>), and the \<open>Exception\<close> of
  \<open>get_winners\<close>.
\<close>

datatype error = ValueError | ZeroDivisionError | AttributeError | NotElected

text \<open>
  The state of a \<open>WrightSystem\<close> object with the \<open>Candidate\<close> and \<open>Vote\<close> objects it
  owns. \<open>total_value\<close> and \<open>cand_votes\<close> are the fields \<open>total_value\<close> and \<open>votes\<close> of the
  candidates, \<open>preference\<close> and \<open>vote_value\<close> the fields \<open>preference\<close> and \<open>value\<close> of the
  votes. \<open>total_votes\<close> and \<open>quota\<close> are \<open>None\<close> while the object has no such attribute.
\<close>

record state =
  vacancies :: int
  candidates :: "name list"
  total_value :: "name \<Rightarrow> real"
  cand_votes :: "name \<Rightarrow> vid list"
  votes :: "vid list"
  preference :: "vid \<Rightarrow> name list"
  vote_value :: "vid \<Rightarrow> real"
  provisional_winners :: "name list"
  total_votes :: "real option"
  quota :: "real option"

subsection \<open>Candidate\<close>

definition set_add :: "'a \<Rightarrow> 'a list \<Rightarrow> 'a list" where
  "set_add x xs = (if x \<in> set xs then xs else xs @ [x])"

definition alloc_vote :: "name \<Rightarrow> vid \<Rightarrow> state \<Rightarrow> state" where
  "alloc_vote c v s =
     s\<lparr>total_value := (total_value s)(c := total_value s c + vote_value s v),
       cand_votes := (cand_votes s)(c := set_add v (cand_votes s c))\<rparr>"

text \<open>\<open>Candidate.__lt__\<close>: \<open>a < b\<close> holds when \<open>b\<close> has the smaller total.\<close>

definition cand_lt :: "(name \<Rightarrow> real) \<Rightarrow> name \<Rightarrow> name \<Rightarrow> bool" where
  "cand_lt tv a b = (tv b < tv a)"

text \<open>
  The builtin \<open>max\<close>: it keeps the first item and replaces it by a later \<open>item\<close> when
  \<open>item > maxitem\<close>. \<open>Candidate\<close> defines \<open>__lt__\<close> only, so Python evaluates this
  comparison by the reflected call \<open>maxitem.__lt__(item)\<close>. An empty argument raises
  \<open>ValueError\<close>.
\<close>

fun py_max_from :: "(name \<Rightarrow> real) \<Rightarrow> name \<Rightarrow> name list \<Rightarrow> name" where
  "py_max_from tv m [] = m"
| "py_max_from tv m (c # cs) = py_max_from tv (if cand_lt tv m c then c else m) cs"

definition py_max :: "(name \<Rightarrow> real) \<Rightarrow> name list \<Rightarrow> error + name" where
  "py_max tv cs = (case cs of [] \<Rightarrow> Inl ValueError | c # cs' \<Rightarrow> Inr (py_max_from tv c cs'))"

subsection \<open>Vote\<close>

definition get_preference :: "state \<Rightarrow> vid \<Rightarrow> name option" where
  "get_preference s v = (case preference s v of [] \<Rightarrow> None | c # _ \<Rightarrow> Some c)"

definition get_preference_excluding :: "state \<Rightarrow> vid \<Rightarrow> name list \<Rightarrow> name option" where
  "get_preference_excluding s v excluding = find (\<lambda>c. c \<notin> set excluding) (preference s v)"

subsection \<open>WrightSystem: construction\<close>

text \<open>
  \<open>__init__\<close> up to the call of \<open>elect\<close>. The argument \<open>ballots\<close> is the list of the
  items of the dictionary, in its order. A new candidate has no votes and total 0, a new
  vote has value 1.
\<close>

definition add_candidate :: "name \<Rightarrow> state \<Rightarrow> state" where
  "add_candidate n s =
     (if n \<notin> set (candidates s)
      then s\<lparr>candidates := candidates s @ [n],
             total_value := (total_value s)(n := 0),
             cand_votes := (cand_votes s)(n := [])\<rparr>
      else s)"

definition add_ballot :: "vid \<times> name list \<Rightarrow> state \<Rightarrow> state" where
  "add_ballot b s =
     (let s1 = fold add_candidate (snd b) s
      in s1\<lparr>votes := set_add (fst b) (votes s1),
             preference := (preference s1)(fst b := snd b),
             vote_value := (vote_value s1)(fst b := 1)\<rparr>)"

definition empty_state :: "int \<Rightarrow> state" where
  "empty_state vac =
     \<lparr>vacancies = vac, candidates = [], total_value = (\<lambda>_. 0), cand_votes = (\<lambda>_. []),
      votes = [], preference = (\<lambda>_. []), vote_value = (\<lambda>_. 1), provisional_winners = [],
      total_votes = None, quota = None\<rparr>"

definition init_state :: "int \<Rightarrow> (vid \<times> name list) list \<Rightarrow> state" where
  "init_state vac ballots = fold add_ballot ballots (empty_state vac)"

subsection \<open>WrightSystem: the steps of a round\<close>

definition check_all_vacancies_filled :: "state \<Rightarrow> bool" where
  "check_all_vacancies_filled s =
     (int (length (candidates s)) \<le> vacancies s
      \<or> int (length (provisional_winners s)) \<ge> vacancies s)"

definition get_winners :: "state \<Rightarrow> error + name list" where
  "get_winners s =
     (if int (length (candidates s)) \<le> vacancies s then Inr (candidates s)
      else if int (length (provisional_winners s)) \<ge> vacancies s
      then Inr (provisional_winners s)
      else Inl NotElected)"

text \<open>
  \<open>distribution_of_preferences\<close>: the reset of the candidates of the pool, the removal of
  the votes with an empty preference list, the loop over the remaining votes
  (\<open>distribute_vote\<close> is its body), the quota and the provisional winners.
\<close>

definition reset_candidate :: "name \<Rightarrow> state \<Rightarrow> state" where
  "reset_candidate c s =
     s\<lparr>total_value := (total_value s)(c := 0), cand_votes := (cand_votes s)(c := [])\<rparr>"

definition distribute_vote :: "vid \<Rightarrow> state \<Rightarrow> error + state" where
  "distribute_vote v s =
     (let s1 = s\<lparr>vote_value := (vote_value s)(v := 1)\<rparr>
      in case get_preference s1 v of
           None \<Rightarrow> Inl AttributeError
         | Some c \<Rightarrow>
             (let s2 = alloc_vote c v s1
              in case total_votes s2 of
                   None \<Rightarrow> Inl AttributeError
                 | Some tv \<Rightarrow> Inr (s2\<lparr>total_votes := Some (tv + vote_value s2 v)\<rparr>)))"

fun distribute_votes :: "vid list \<Rightarrow> state \<Rightarrow> error + state" where
  "distribute_votes [] s = Inr s"
| "distribute_votes (v # vs) s =
     (case distribute_vote v s of Inl e \<Rightarrow> Inl e | Inr s' \<Rightarrow> distribute_votes vs s')"

definition compute_quota :: "real \<Rightarrow> int \<Rightarrow> real" where
  "compute_quota tv vac = real_of_int \<lfloor>tv / real_of_int (1 + vac)\<rfloor> + 1"

definition winners_of :: "state \<Rightarrow> real \<Rightarrow> name list" where
  "winners_of s q = filter (\<lambda>c. total_value s c \<ge> q) (candidates s)"

definition distribution_of_preferences :: "state \<Rightarrow> error + state" where
  "distribution_of_preferences s =
     (let s1 = s\<lparr>provisional_winners := [], total_votes := Some 0\<rparr>;
          s2 = fold reset_candidate (candidates s1) s1;
          exhausted = filter (\<lambda>v. preference s2 v = []) (votes s2);
          s3 = s2\<lparr>votes := filter (\<lambda>v. v \<notin> set exhausted) (votes s2)\<rparr>
      in case distribute_votes (votes s3) s3 of
           Inl e \<Rightarrow> Inl e
         | Inr s4 \<Rightarrow>
             (case total_votes s4 of
                None \<Rightarrow> Inl AttributeError
              | Some tv \<Rightarrow>
                  if 1 + vacancies s4 = 0 then Inl ZeroDivisionError
                  else (let q = compute_quota tv (vacancies s4);
                            s5 = s4\<lparr>quota := Some q\<rparr>
                        in Inr (s5\<lparr>provisional_winners := winners_of s5 q\<rparr>))))"

text \<open>
  \<open>any\<close> over no candidates is false and does not read the quota. The same holds for
  the generator that \<open>calc_and_distribute_surplus\<close> passes to \<open>max\<close>.
\<close>

definition check_if_candidates_surplus :: "state \<Rightarrow> error + bool" where
  "check_if_candidates_surplus s =
     (if candidates s = [] then Inr False
      else case quota s of
             None \<Rightarrow> Inl AttributeError
           | Some q \<Rightarrow> Inr (\<exists>c \<in> set (candidates s). total_value s c > q))"

text \<open>
  \<open>calc_and_distribute_surplus\<close>: \<open>surplus_candidate\<close> is the candidate it selects,
  \<open>transfer_vote\<close> the body of its loop over the votes of that candidate. The loop reads
  the vote set as it is when the loop starts; the only set the loop can add to while
  iterating over it is that of the selected candidate itself, and it then adds a vote that
  is already a member.
\<close>

definition transfer_vote :: "real \<Rightarrow> vid \<Rightarrow> state \<Rightarrow> state" where
  "transfer_vote stv v s =
     (let s1 = s\<lparr>vote_value := (vote_value s)(v := vote_value s v * stv)\<rparr>;
          excluding = provisional_winners s1
      in case get_preference_excluding s1 v excluding of
           None \<Rightarrow> s1
         | Some next_preference \<Rightarrow> alloc_vote next_preference v s1)"

definition surplus_candidate :: "state \<Rightarrow> error + name" where
  "surplus_candidate s =
     (if candidates s = [] then Inl ValueError
      else case quota s of
             None \<Rightarrow> Inl AttributeError
           | Some q \<Rightarrow>
               py_max (total_value s) (filter (\<lambda>c. total_value s c > q) (candidates s)))"

definition calc_and_distribute_surplus :: "state \<Rightarrow> error + state" where
  "calc_and_distribute_surplus s =
     (case surplus_candidate s of
        Inl e \<Rightarrow> Inl e
      | Inr candidate \<Rightarrow>
          (case quota s of
             None \<Rightarrow> Inl AttributeError
           | Some q \<Rightarrow>
               (let surplus = total_value s candidate - q
                in if total_value s candidate = 0 then Inl ZeroDivisionError
                   else (let surplus_transfer_value = surplus / total_value s candidate;
                             s1 = fold (transfer_vote surplus_transfer_value)
                                    (cand_votes s candidate) s;
                             s2 = s1\<lparr>total_value := (total_value s1)(candidate := q)\<rparr>
                         in Inr (s2\<lparr>provisional_winners := winners_of s2 q\<rparr>)))))"

text \<open>
  \<open>exclusion_of_candidates\<close>: \<open>remove_excluded\<close> is the body of its loop over the votes;
  \<open>list.remove\<close> deletes the first occurrence.
\<close>

definition remove_excluded :: "name \<Rightarrow> vid \<Rightarrow> state \<Rightarrow> state" where
  "remove_excluded excluded v s =
     (if excluded \<in> set (preference s v)
      then s\<lparr>preference := (preference s)(v := remove1 excluded (preference s v))\<rparr>
      else s)"

text \<open>
  \<open>random.choice\<close> draws one element of a non-empty list; the draw is the parameter
  \<open>r\<close>, and every element is the outcome of some draw.
\<close>

definition random_choice :: "nat \<Rightarrow> 'a list \<Rightarrow> 'a" where
  "random_choice r xs = xs ! (r mod length xs)"

definition minimum_votes :: "state \<Rightarrow> name list" where
  "minimum_votes s =
     (let min_total_val = min_list (map (total_value s) (candidates s))
      in filter (\<lambda>c. total_value s c = min_total_val) (candidates s))"

definition exclusion_of_candidates :: "nat \<Rightarrow> state \<Rightarrow> error + state" where
  "exclusion_of_candidates r s =
     (if candidates s = [] then Inl ValueError
      else (let excluded = random_choice r (minimum_votes s);
                s1 = fold (remove_excluded excluded) (votes s) s
            in Inr (s1\<lparr>candidates := remove1 excluded (candidates s1)\<rparr>)))"

subsection \<open>Frame and membership facts used by the termination proofs\<close>

lemma py_max_from_mem: "py_max_from tv m cs \<in> insert m (set cs)"
  by (induction cs arbitrary: m) auto

lemma py_max_mem: "py_max tv cs = Inr c \<Longrightarrow> c \<in> set cs"
  using py_max_from_mem by (fastforce simp: py_max_def split: list.splits)

lemma surplus_candidate_props:
  assumes "surplus_candidate s = Inr c"
  obtains q where "quota s = Some q" "c \<in> set (candidates s)" "total_value s c > q"
proof -
  from assms obtain q where q: "quota s = Some q"
    and m: "py_max (total_value s) (filter (\<lambda>c. total_value s c > q) (candidates s)) = Inr c"
    by (auto simp: surplus_candidate_def split: if_splits option.splits)
  from py_max_mem[OF m] have "c \<in> set (candidates s)" "total_value s c > q" by auto
  with q that show thesis by blast
qed

lemma alloc_vote_simps [simp]:
  "vacancies (alloc_vote c v s) = vacancies s"
  "candidates (alloc_vote c v s) = candidates s"
  "votes (alloc_vote c v s) = votes s"
  "preference (alloc_vote c v s) = preference s"
  "vote_value (alloc_vote c v s) = vote_value s"
  "provisional_winners (alloc_vote c v s) = provisional_winners s"
  "total_votes (alloc_vote c v s) = total_votes s"
  "quota (alloc_vote c v s) = quota s"
  "total_value (alloc_vote c v s) = (total_value s)(c := total_value s c + vote_value s v)"
  "cand_votes (alloc_vote c v s) = (cand_votes s)(c := set_add v (cand_votes s c))"
  by (simp_all add: alloc_vote_def)

lemma find_not_in: "find (\<lambda>c. c \<notin> set ex) xs = Some n \<Longrightarrow> n \<notin> set ex \<and> n \<in> set xs"
  by (induction xs) (auto split: if_splits)

lemma get_preference_excluding_Some:
  "get_preference_excluding s v ex = Some n \<Longrightarrow> n \<notin> set ex \<and> n \<in> set (preference s v)"
  unfolding get_preference_excluding_def by (rule find_not_in)

lemma transfer_vote_frame [simp]:
  "vacancies (transfer_vote r v s) = vacancies s"
  "candidates (transfer_vote r v s) = candidates s"
  "votes (transfer_vote r v s) = votes s"
  "preference (transfer_vote r v s) = preference s"
  "provisional_winners (transfer_vote r v s) = provisional_winners s"
  "total_votes (transfer_vote r v s) = total_votes s"
  "quota (transfer_vote r v s) = quota s"
  by (simp_all add: transfer_vote_def Let_def split: option.splits)

lemma fold_transfer_frame [simp]:
  "vacancies (fold (transfer_vote r) vs s) = vacancies s"
  "candidates (fold (transfer_vote r) vs s) = candidates s"
  "votes (fold (transfer_vote r) vs s) = votes s"
  "preference (fold (transfer_vote r) vs s) = preference s"
  "provisional_winners (fold (transfer_vote r) vs s) = provisional_winners s"
  "total_votes (fold (transfer_vote r) vs s) = total_votes s"
  "quota (fold (transfer_vote r) vs s) = quota s"
  by (induction vs arbitrary: s) simp_all

lemma transfer_vote_winner_untouched:
  "c \<in> set (provisional_winners s) \<Longrightarrow>
     total_value (transfer_vote r v s) c = total_value s c \<and>
     cand_votes (transfer_vote r v s) c = cand_votes s c"
  by (auto simp: transfer_vote_def Let_def split: option.splits
           dest!: get_preference_excluding_Some)

lemma fold_transfer_winner_untouched:
  "c \<in> set (provisional_winners s) \<Longrightarrow>
     total_value (fold (transfer_vote r) vs s) c = total_value s c \<and>
     cand_votes (fold (transfer_vote r) vs s) c = cand_votes s c"
proof (induction vs arbitrary: s)
  case Nil
  then show ?case by simp
next
  case (Cons v vs)
  then show ?case using transfer_vote_winner_untouched[of c s r v] by simp
qed

subsection \<open>The surplus loop of \<open>elect\<close>\<close>

text \<open>
  The inner loop \<open>while self.check_if_candidates_surplus(): ...\<close> of \<open>elect\<close>. The
  boolean of the result tells whether the loop left through \<open>return\<close> (all vacancies
  filled) or through its condition. The loop terminates from every state: after the first
  step \<open>provisional_winners\<close> is the list of candidates at or above the quota, and from
  then on every step turns one more candidate's total into exactly the quota, while a
  candidate at the quota is a provisional winner and receives nothing.
\<close>

definition pw_consistent :: "state \<Rightarrow> bool" where
  "pw_consistent s =
     (case quota s of None \<Rightarrow> False | Some q \<Rightarrow> provisional_winners s = winners_of s q)"

definition surplus_measure :: "state \<Rightarrow> nat" where
  "surplus_measure s =
     (case quota s of
        None \<Rightarrow> 0
      | Some q \<Rightarrow> length (filter (\<lambda>c. total_value s c \<noteq> q) (candidates s)))"

lemma filter_length_le:
  "(\<And>x. x \<in> set xs \<Longrightarrow> P x \<Longrightarrow> Q x) \<Longrightarrow> length (filter P xs) \<le> length (filter Q xs)"
  by (induction xs) auto

lemma filter_length_less:
  assumes "\<And>x. x \<in> set xs \<Longrightarrow> P x \<Longrightarrow> Q x"
    and "y \<in> set xs" "Q y" "\<not> P y"
  shows "length (filter P xs) < length (filter Q xs)"
  using assms
proof (induction xs)
  case Nil
  then show ?case by simp
next
  case (Cons x xs)
  have le: "length (filter P xs) \<le> length (filter Q xs)"
    by (rule filter_length_le) (simp add: Cons.prems(1))
  show ?case
  proof (cases "y = x")
    case True
    with Cons.prems le show ?thesis by simp
  next
    case False
    with Cons have "length (filter P xs) < length (filter Q xs)" by auto
    with Cons.prems(1)[of x] show ?thesis by auto
  qed
qed

lemma calc_frame:
  assumes "calc_and_distribute_surplus s = Inr s'"
  shows "candidates s' = candidates s" "quota s' = quota s" "vacancies s' = vacancies s"
    "votes s' = votes s" "preference s' = preference s" "total_votes s' = total_votes s"
  using assms
  by (auto simp: calc_and_distribute_surplus_def Let_def split: sum.splits option.splits if_splits)

lemma calc_result:
  assumes "calc_and_distribute_surplus s = Inr s'"
  obtains c q where "surplus_candidate s = Inr c" "quota s = Some q"
    "total_value s c \<noteq> 0"
    "s' = (let s1 = fold (transfer_vote ((total_value s c - q) / total_value s c)) (cand_votes s c) s;
               s2 = s1\<lparr>total_value := (total_value s1)(c := q)\<rparr>
           in s2\<lparr>provisional_winners := winners_of s2 q\<rparr>)"
  using assms
  by (auto simp: calc_and_distribute_surplus_def Let_def split: sum.splits option.splits if_splits)

lemma calc_consistent:
  assumes "calc_and_distribute_surplus s = Inr s'"
  shows "pw_consistent s'"
proof -
  from assms obtain c q where q: "quota s = Some q"
    and s': "s' = (let s1 = fold (transfer_vote ((total_value s c - q) / total_value s c)) (cand_votes s c) s;
               s2 = s1\<lparr>total_value := (total_value s1)(c := q)\<rparr>
           in s2\<lparr>provisional_winners := winners_of s2 q\<rparr>)"
    by (rule calc_result)
  show ?thesis
    unfolding s' by (simp add: Let_def pw_consistent_def winners_of_def q cong: filter_cong)
qed

lemma calc_measure_less:
  assumes calc: "calc_and_distribute_surplus s = Inr s'" and cons: "pw_consistent s"
  shows "surplus_measure s' < surplus_measure s"
proof -
  from calc obtain c q where c: "surplus_candidate s = Inr c" and q: "quota s = Some q"
    and s': "s' = (let s1 = fold (transfer_vote ((total_value s c - q) / total_value s c)) (cand_votes s c) s;
               s2 = s1\<lparr>total_value := (total_value s1)(c := q)\<rparr>
           in s2\<lparr>provisional_winners := winners_of s2 q\<rparr>)"
    by (rule calc_result)
  from c q have cin: "c \<in> set (candidates s)" and cgt: "total_value s c > q"
    by (auto elim!: surplus_candidate_props)
  have tc: "total_value s' c = q" using s' by (simp add: Let_def)
  have keep: "total_value s' x \<noteq> q \<Longrightarrow> total_value s x \<noteq> q" if "x \<in> set (candidates s)" for x
  proof
    assume ne: "total_value s' x \<noteq> q" and eq: "total_value s x = q"
    from eq that cons q have "x \<in> set (provisional_winners s)"
      by (simp add: pw_consistent_def winners_of_def)
    from fold_transfer_winner_untouched[OF this] eq
    have "total_value s' x = q" using s' by (simp add: Let_def)
    with ne show False by simp
  qed
  have "length (filter (\<lambda>x. total_value s' x \<noteq> q) (candidates s))
        < length (filter (\<lambda>x. total_value s x \<noteq> q) (candidates s))"
    by (rule filter_length_less[where y = c]) (use keep cin cgt tc in auto)
  then show ?thesis
    using q calc_frame[OF calc] by (simp add: surplus_measure_def)
qed

function surplus_loop :: "state \<Rightarrow> error + bool \<times> state" where
  "surplus_loop s =
     (case check_if_candidates_surplus s of
        Inl e \<Rightarrow> Inl e
      | Inr False \<Rightarrow> Inr (False, s)
      | Inr True \<Rightarrow>
          (case calc_and_distribute_surplus s of
             Inl e \<Rightarrow> Inl e
           | Inr s' \<Rightarrow>
               if check_all_vacancies_filled s' then Inr (True, s') else surplus_loop s'))"
  by pat_completeness auto
termination
proof (relation "measures [\<lambda>s. if pw_consistent s then 0 else 1, surplus_measure]")
  show "wf (measures [\<lambda>s. if pw_consistent s then 0 else 1, surplus_measure])" by simp
next
  fix s b s'
  assume "calc_and_distribute_surplus s = Inr s'"
  then show "(s', s) \<in> measures [\<lambda>s. if pw_consistent s then 0 else 1, surplus_measure]"
    using calc_consistent[of s s'] calc_measure_less[of s s'] by auto
qed

text \<open>
  The number of passes through the body of the surplus loop, by the same recursion.
\<close>

function surplus_iterations :: "state \<Rightarrow> nat" where
  "surplus_iterations s =
     (case check_if_candidates_surplus s of
        Inl e \<Rightarrow> 0
      | Inr False \<Rightarrow> 0
      | Inr True \<Rightarrow>
          (case calc_and_distribute_surplus s of
             Inl e \<Rightarrow> 1
           | Inr s' \<Rightarrow>
               if check_all_vacancies_filled s' then 1 else 1 + surplus_iterations s'))"
  by pat_completeness auto
termination
proof (relation "measures [\<lambda>s. if pw_consistent s then 0 else 1, surplus_measure]")
  show "wf (measures [\<lambda>s. if pw_consistent s then 0 else 1, surplus_measure])" by simp
next
  fix s b s'
  assume "calc_and_distribute_surplus s = Inr s'"
  then show "(s', s) \<in> measures [\<lambda>s. if pw_consistent s then 0 else 1, surplus_measure]"
    using calc_consistent[of s s'] calc_measure_less[of s s'] by auto
qed

subsection \<open>The round loop of \<open>elect\<close>\<close>

lemma reset_candidate_frame [simp]:
  "vacancies (reset_candidate c s) = vacancies s"
  "candidates (reset_candidate c s) = candidates s"
  "votes (reset_candidate c s) = votes s"
  "preference (reset_candidate c s) = preference s"
  "vote_value (reset_candidate c s) = vote_value s"
  "provisional_winners (reset_candidate c s) = provisional_winners s"
  "total_votes (reset_candidate c s) = total_votes s"
  "quota (reset_candidate c s) = quota s"
  by (simp_all add: reset_candidate_def)

lemma fold_reset_frame [simp]:
  "vacancies (fold reset_candidate cs s) = vacancies s"
  "candidates (fold reset_candidate cs s) = candidates s"
  "votes (fold reset_candidate cs s) = votes s"
  "preference (fold reset_candidate cs s) = preference s"
  "vote_value (fold reset_candidate cs s) = vote_value s"
  "provisional_winners (fold reset_candidate cs s) = provisional_winners s"
  "total_votes (fold reset_candidate cs s) = total_votes s"
  "quota (fold reset_candidate cs s) = quota s"
  by (induction cs arbitrary: s) simp_all

lemma distribute_vote_frame:
  assumes "distribute_vote v s = Inr s'"
  shows "vacancies s' = vacancies s" "candidates s' = candidates s" "votes s' = votes s"
    "preference s' = preference s" "provisional_winners s' = provisional_winners s"
    "quota s' = quota s"
  using assms by (auto simp: distribute_vote_def Let_def split: option.splits)

lemma distribute_votes_frame:
  assumes "distribute_votes vs s = Inr s'"
  shows "vacancies s' = vacancies s \<and> candidates s' = candidates s \<and> votes s' = votes s \<and>
    preference s' = preference s \<and> provisional_winners s' = provisional_winners s \<and>
    quota s' = quota s"
  using assms
proof (induction vs arbitrary: s)
  case Nil
  then show ?case by simp
next
  case (Cons v vs)
  then obtain s1 where 1: "distribute_vote v s = Inr s1" and 2: "distribute_votes vs s1 = Inr s'"
    by (auto split: sum.splits)
  from Cons.IH[OF 2] distribute_vote_frame[OF 1] show ?case by simp
qed

lemma distribution_frame:
  assumes "distribution_of_preferences s = Inr s'"
  shows "candidates s' = candidates s" "vacancies s' = vacancies s" "preference s' = preference s"
  using assms
  by (auto simp: distribution_of_preferences_def Let_def
      split: sum.splits option.splits if_splits dest!: distribute_votes_frame)

lemma surplus_loop_frame:
  "surplus_loop s = Inr (b, s') \<Longrightarrow>
     candidates s' = candidates s \<and> vacancies s' = vacancies s \<and> quota s' = quota s \<and>
     votes s' = votes s \<and> preference s' = preference s"
proof (induction s rule: surplus_loop.induct)
  case (1 s)
  show ?case
  proof (cases "check_if_candidates_surplus s")
    case (Inl e)
    with "1.prems" show ?thesis by (simp add: surplus_loop.simps[of s])
  next
    case (Inr t)
    show ?thesis
    proof (cases t)
      case False
      with Inr "1.prems" show ?thesis by (simp add: surplus_loop.simps[of s])
    next
      case True
      with Inr "1.prems" obtain s1 where c: "calc_and_distribute_surplus s = Inr s1"
        by (auto simp: surplus_loop.simps[of s] split: sum.splits)
      show ?thesis
      proof (cases "check_all_vacancies_filled s1")
        case f: True
        with Inr True c "1.prems" have "s' = s1" by (simp add: surplus_loop.simps[of s])
        with calc_frame[OF c] show ?thesis by simp
      next
        case f: False
        with Inr True c "1.prems" have rec: "surplus_loop s1 = Inr (b, s')"
          by (simp add: surplus_loop.simps[of s])
        from True have tt: "t = True" by simp
        from "1.IH"[OF Inr tt c f rec] calc_frame[OF c] show ?thesis by simp
      qed
    qed
  qed
qed

lemma min_list_mem: "xs \<noteq> [] \<Longrightarrow> min_list xs \<in> set xs"
  by (induction xs rule: min_list.induct) (auto simp: min_def split: list.splits)

lemma minimum_votes_nonempty: "candidates s \<noteq> [] \<Longrightarrow> minimum_votes s \<noteq> []"
proof -
  assume ne: "candidates s \<noteq> []"
  then have "min_list (map (total_value s) (candidates s)) \<in> set (map (total_value s) (candidates s))"
    by (intro min_list_mem) simp
  then obtain c where "c \<in> set (candidates s)"
    "total_value s c = min_list (map (total_value s) (candidates s))" by auto
  then show ?thesis by (auto simp: minimum_votes_def Let_def filter_empty_conv)
qed

lemma random_choice_mem: "xs \<noteq> [] \<Longrightarrow> random_choice r xs \<in> set xs"
  by (simp add: random_choice_def)

lemma excluded_in_candidates:
  "candidates s \<noteq> [] \<Longrightarrow> random_choice r (minimum_votes s) \<in> set (candidates s)"
  using random_choice_mem[OF minimum_votes_nonempty, of s r]
  by (auto simp: minimum_votes_def Let_def)

lemma remove_excluded_frame [simp]:
  "vacancies (remove_excluded x v s) = vacancies s"
  "candidates (remove_excluded x v s) = candidates s"
  "votes (remove_excluded x v s) = votes s"
  "vote_value (remove_excluded x v s) = vote_value s"
  "total_value (remove_excluded x v s) = total_value s"
  "cand_votes (remove_excluded x v s) = cand_votes s"
  "provisional_winners (remove_excluded x v s) = provisional_winners s"
  "total_votes (remove_excluded x v s) = total_votes s"
  "quota (remove_excluded x v s) = quota s"
  by (simp_all add: remove_excluded_def)

lemma fold_remove_excluded_frame [simp]:
  "vacancies (fold (remove_excluded x) vs s) = vacancies s"
  "candidates (fold (remove_excluded x) vs s) = candidates s"
  "votes (fold (remove_excluded x) vs s) = votes s"
  "vote_value (fold (remove_excluded x) vs s) = vote_value s"
  "total_value (fold (remove_excluded x) vs s) = total_value s"
  "cand_votes (fold (remove_excluded x) vs s) = cand_votes s"
  "provisional_winners (fold (remove_excluded x) vs s) = provisional_winners s"
  "total_votes (fold (remove_excluded x) vs s) = total_votes s"
  "quota (fold (remove_excluded x) vs s) = quota s"
  by (induction vs arbitrary: s) simp_all

lemma length_remove1_mem: "x \<in> set xs \<Longrightarrow> Suc (length (remove1 x xs)) = length xs"
  by (induction xs) auto

lemma exclusion_candidates:
  assumes "exclusion_of_candidates r s = Inr s'"
  shows "candidates s \<noteq> []"
    and "candidates s' = remove1 (random_choice r (minimum_votes s)) (candidates s)"
    and "Suc (length (candidates s')) = length (candidates s)"
proof -
  from assms show ne: "candidates s \<noteq> []"
    by (auto simp: exclusion_of_candidates_def split: if_splits)
  from assms ne show c: "candidates s' = remove1 (random_choice r (minimum_votes s)) (candidates s)"
    by (auto simp: exclusion_of_candidates_def Let_def)
  from excluded_in_candidates[OF ne, of r]
  show "Suc (length (candidates s')) = length (candidates s)"
    unfolding c by (rule length_remove1_mem)
qed

text \<open>
  The outer loop of \<open>elect\<close>, returning the final \<open>round_nr\<close> with the state. The
  draw of the lot in round \<open>n\<close> is \<open>rnd n\<close>. Every round that does not return excludes
  one candidate, so the loop terminates from every state.
\<close>

function elect_loop :: "(nat \<Rightarrow> nat) \<Rightarrow> nat \<Rightarrow> state \<Rightarrow> error + nat \<times> state" where
  "elect_loop rnd round_nr s =
     (if check_all_vacancies_filled s then Inr (round_nr, s)
      else (case distribution_of_preferences s of
              Inl e \<Rightarrow> Inl e
            | Inr s1 \<Rightarrow>
                if check_all_vacancies_filled s1 then Inr (round_nr + 1, s1)
                else (case surplus_loop s1 of
                        Inl e \<Rightarrow> Inl e
                      | Inr (True, s2) \<Rightarrow> Inr (round_nr + 1, s2)
                      | Inr (False, s2) \<Rightarrow>
                          (case exclusion_of_candidates (rnd (round_nr + 1)) s2 of
                             Inl e \<Rightarrow> Inl e
                           | Inr s3 \<Rightarrow> elect_loop rnd (round_nr + 1) s3))))"
  by pat_completeness auto
termination
proof (relation "measure (\<lambda>(rnd, round_nr, s). length (candidates s))")
  show "wf (measure (\<lambda>(rnd, round_nr, s). length (candidates s)))" by simp
next
  fix rnd :: "nat \<Rightarrow> nat" and round_nr s s1 x b s2 s3
  assume d: "distribution_of_preferences s = Inr s1"
    and l: "surplus_loop s1 = Inr x" and x: "(b, s2) = x"
    and e: "exclusion_of_candidates (rnd (round_nr + 1)) s2 = Inr s3"
  from l x have "surplus_loop s1 = Inr (b, s2)" by simp
  from surplus_loop_frame[OF this] distribution_frame[OF d] exclusion_candidates(3)[OF e]
  show "((rnd, round_nr + 1, s3), (rnd, round_nr, s)) \<in> measure (\<lambda>(rnd, round_nr, s). length (candidates s))"
    by simp
qed

text \<open>
  \<open>elect\<close> starts the loop with \<open>round_nr = 0\<close>; the constructor builds the initial state
  from the ballots and runs \<open>elect\<close>.
\<close>

definition elect :: "(nat \<Rightarrow> nat) \<Rightarrow> state \<Rightarrow> error + nat \<times> state" where
  "elect rnd s = elect_loop rnd 0 s"

definition WrightSystem :: "int \<Rightarrow> (vid \<times> name list) list \<Rightarrow> (nat \<Rightarrow> nat) \<Rightarrow> error + nat \<times> state" where
  "WrightSystem vac ballots rnd = elect rnd (init_state vac ballots)"

subsection \<open>Names for expressions of the code\<close>

text \<open>
  The votes that \<open>distribution_of_preferences\<close> keeps (those with a non-empty preference
  list), and the candidate that \<open>calc_and_distribute_surplus\<close> allocates a vote to.
\<close>

definition active_votes :: "state \<Rightarrow> vid list" where
  "active_votes s = filter (\<lambda>v. preference s v \<noteq> []) (votes s)"

definition transfer_target :: "state \<Rightarrow> vid \<Rightarrow> name option" where
  "transfer_target s v = get_preference_excluding s v (provisional_winners s)"

subsection \<open>Concrete elections\<close>

text \<open>
  Six ballots for two vacancies: four first preferences for A, one for B, one for C. The
  quota is 3, A is the only provisional winner of round 1 and has a surplus of 1.
\<close>

definition ballots1 :: "(vid \<times> name list) list" where
  "ballots1 = [(1, [''A'', ''B'']), (2, [''A'', ''B'']), (3, [''A'', ''C'']),
               (4, [''A'']), (5, [''B'']), (6, [''C''])]"

definition round1 :: state where
  "round1 = projr (distribution_of_preferences (init_state 2 ballots1))"

text \<open>Round 1 of the election with six ballots after its surplus step.\<close>

definition round1_step :: state where
  "round1_step = projr (calc_and_distribute_surplus round1)"

text \<open>
  Nine ballots for three vacancies: five first preferences for A and four for B, with C
  and D named as later preferences only. The quota is 3; A and B both have a surplus.
\<close>

definition ballots2 :: "(vid \<times> name list) list" where
  "ballots2 = [(1, [''A'', ''C'']), (2, [''A'', ''C'']), (3, [''A'', ''D'']), (4, [''A'']),
               (5, [''A'']), (6, [''B'', ''C'']), (7, [''B'', ''D'']), (8, [''B'']),
               (9, [''B''])]"

definition round2 :: state where
  "round2 = projr (distribution_of_preferences (init_state 3 ballots2))"

definition round2_step :: state where
  "round2_step = projr (calc_and_distribute_surplus round2)"

text \<open>
  Five ballots for one vacancy; ballot 1 names A twice. A has the least total in round 1
  and is excluded, whatever the draw. The states are those \<open>elect\<close> passes through:
  round 1 after the distribution step, after the exclusion with draw \<open>r\<close>, and round 2
  after the distribution step.
\<close>

definition ballots3 :: "(vid \<times> name list) list" where
  "ballots3 = [(1, [''A'', ''A'']), (2, [''B'']), (3, [''B'']), (4, [''C'']), (5, [''C''])]"

definition round3 :: state where
  "round3 = projr (distribution_of_preferences (init_state 1 ballots3))"

definition round3_excluded :: "nat \<Rightarrow> state" where
  "round3_excluded r = projr (exclusion_of_candidates r round3)"

definition round3_next :: "nat \<Rightarrow> state" where
  "round3_next r = projr (distribution_of_preferences (round3_excluded r))"

text \<open>One ballot for three vacancies.\<close>

definition ballots4 :: "(vid \<times> name list) list" where
  "ballots4 = [(1, [''A''])]"

section \<open>Properties\<close>

subsection \<open>Evaluation of the concrete elections\<close>

lemmas eval_defs = init_state_def empty_state_def add_ballot_def add_candidate_def set_add_def
  distribution_of_preferences_def reset_candidate_def distribute_vote_def get_preference_def
  alloc_vote_def compute_quota_def winners_of_def check_all_vacancies_filled_def
  check_if_candidates_surplus_def surplus_candidate_def py_max_def cand_lt_def
  calc_and_distribute_surplus_def transfer_vote_def get_preference_excluding_def
  exclusion_of_candidates_def minimum_votes_def random_choice_def remove_excluded_def
  get_winners_def Let_def

lemma round1_facts:
  "\<not> isl (distribution_of_preferences (init_state 2 ballots1))"
  "candidates round1 = [''A'', ''B'', ''C'']"
  "quota round1 = Some 3"
  "total_value round1 ''A'' = 4"
  "provisional_winners round1 = [''A'']"
  "surplus_candidate round1 = Inr ''A''"
  by (simp_all add: round1_def ballots1_def eval_defs)

lemma round2_facts:
  "\<not> check_all_vacancies_filled (init_state 3 ballots2)"
  "\<not> isl (distribution_of_preferences (init_state 3 ballots2))"
  "candidates round2 = [''A'', ''C'', ''D'', ''B'']"
  "quota round2 = Some 3"
  "total_value round2 ''A'' = 5"
  "total_value round2 ''B'' = 4"
  "provisional_winners round2 = [''A'', ''B'']"
  "\<not> check_all_vacancies_filled round2"
  "check_if_candidates_surplus round2 = Inr True"
  "surplus_candidate round2 = Inr ''B''"
  by (simp_all add: round2_def ballots2_def eval_defs)

lemma round2_step_facts:
  "\<not> isl (calc_and_distribute_surplus round2)"
  "total_value round2_step ''B'' = 3"
  "total_value round2_step ''A'' = 5"
  "cand_votes round2_step ''B'' = [6, 7, 8, 9]"
  "provisional_winners round2_step = [''A'', ''B'']"
  "transfer_target round2 6 = Some ''C''"
  by (simp_all add: round2_step_def round2_def ballots2_def eval_defs transfer_target_def)

lemma round3_facts:
  "\<not> check_all_vacancies_filled (init_state 1 ballots3)"
  "\<not> isl (distribution_of_preferences (init_state 1 ballots3))"
  "\<not> check_all_vacancies_filled round3"
  "check_if_candidates_surplus round3 = Inr False"
  "candidates round3 = [''A'', ''B'', ''C'']"
  "preference round3 1 = [''A'', ''A'']"
  "minimum_votes round3 = [''A'']"
  by (simp_all add: round3_def ballots3_def eval_defs)

lemma round3_excluded_facts:
  "\<not> isl (exclusion_of_candidates r round3)"
  "candidates (round3_excluded r) = [''B'', ''C'']"
  "preference (round3_excluded r) 1 = [''A'']"
  "votes (round3_excluded r) = [1, 2, 3, 4, 5]"
  "\<not> check_all_vacancies_filled (round3_excluded r)"
  by (simp_all add: round3_excluded_def round3_def ballots3_def eval_defs)

lemma round3_next_facts:
  "\<not> isl (distribution_of_preferences (round3_excluded r))"
  "votes (round3_next r) = [1, 2, 3, 4, 5]"
  "total_votes (round3_next r) = Some 5"
  "candidates (round3_next r) = [''B'', ''C'']"
  "total_value (round3_next r) ''B'' = 2"
  "total_value (round3_next r) ''C'' = 2"
  "vote_value (round3_next r) 1 = 1"
  by (simp_all add: round3_next_def round3_excluded_def round3_def ballots3_def eval_defs)

lemma round1_step_facts:
  "\<not> isl (calc_and_distribute_surplus round1)"
  "candidates round1_step = [''A'', ''B'', ''C'']"
  "quota round1_step = Some 3"
  "total_value round1_step ''A'' = 3"
  "cand_votes round1_step ''A'' = [1, 2, 3, 4]"
  "sum_list (map (vote_value round1_step) (cand_votes round1_step ''A'')) = 1"
  "total_value round1_step ''B'' = 3 / 2"
  "sum_list (map (vote_value round1_step) (cand_votes round1_step ''B'')) = 3 / 2"
  by (simp_all add: round1_step_def round1_def ballots1_def eval_defs)

subsection \<open>Surplus distribution\<close>

lemma py_max_nonempty: "cs \<noteq> [] \<Longrightarrow> \<exists>c. py_max tv cs = Inr c"
  by (cases cs) (simp_all add: py_max_def)

lemma calc_succeeds:
  assumes "check_if_candidates_surplus s = Inr True" and "quota s = Some q" and "0 \<le> q"
  shows "\<exists>s'. calc_and_distribute_surplus s = Inr s'"
proof -
  from assms(1,2) obtain x where x: "x \<in> set (candidates s)" "q < total_value s x"
    by (auto simp: check_if_candidates_surplus_def split: if_splits)
  then have ne: "filter (\<lambda>c. q < total_value s c) (candidates s) \<noteq> []"
    by (auto simp: filter_empty_conv)
  from x have "candidates s \<noteq> []" by auto
  with assms(2) have "surplus_candidate s =
      py_max (total_value s) (filter (\<lambda>c. q < total_value s c) (candidates s))"
    by (simp add: surplus_candidate_def)
  with py_max_nonempty[OF ne, of "total_value s"] obtain c where c: "surplus_candidate s = Inr c"
    by auto
  with assms(2) have "q < total_value s c" by (auto elim!: surplus_candidate_props)
  with assms(3) have "total_value s c \<noteq> 0" by simp
  with c assms(2) show ?thesis by (simp add: calc_and_distribute_surplus_def Let_def)
qed

lemma surplus_loop_succeeds:
  assumes "quota s = Some q" "0 \<le> q"
  shows "\<exists>b s'. surplus_loop s = Inr (b, s')"
  using assms
proof (induction s rule: surplus_loop.induct)
  case (1 s)
  from "1.prems" have "\<exists>t. check_if_candidates_surplus s = Inr t"
    by (auto simp: check_if_candidates_surplus_def)
  then obtain t where t: "check_if_candidates_surplus s = Inr t" ..
  show ?case
  proof (cases t)
    case False
    with t show ?thesis by (auto simp: surplus_loop.simps[of s])
  next
    case True
    with t calc_succeeds[OF _ "1.prems"] obtain s1 where c: "calc_and_distribute_surplus s = Inr s1"
      by auto
    show ?thesis
    proof (cases "check_all_vacancies_filled s1")
      case f: True
      with t True c show ?thesis by (auto simp: surplus_loop.simps[of s])
    next
      case f: False
      from True have tt: "t = True" by simp
      from calc_frame(2)[OF c] "1.prems" have "quota s1 = Some q" by simp
      from "1.IH"[OF t tt c f this "1.prems"(2)] t True c f
      show ?thesis by (auto simp: surplus_loop.simps[of s])
    qed
  qed
qed

text \<open>
  C1. The candidate whose surplus is distributed is selected by \<open>max\<close> over the candidates
  above the quota, under the ordering of \<open>Candidate.__lt__\<close>. In round 1 of the election
  with nine ballots, A (total 5) and B (total 4) are both above the quota 3, the election
  is not decided, and the selected candidate is B, the one with the smaller total.
\<close>

theorem surplus_selects_least:
  "\<not> check_all_vacancies_filled (init_state 3 ballots2)
   \<and> distribution_of_preferences (init_state 3 ballots2) = Inr round2
   \<and> \<not> check_all_vacancies_filled round2
   \<and> check_if_candidates_surplus round2 = Inr True
   \<and> quota round2 = Some 3
   \<and> ''A'' \<in> set (candidates round2) \<and> total_value round2 ''A'' = 5
   \<and> ''B'' \<in> set (candidates round2) \<and> total_value round2 ''B'' = 4
   \<and> surplus_candidate round2 = Inr ''B''"
  using round2_facts by (simp add: round2_def)

text \<open>
  C5. After a surplus-distribution step, the total value of the candidate whose surplus
  was distributed (the candidate that \<open>calc_and_distribute_surplus\<close> selects) equals the
  quota exactly, and the quota itself is unchanged by the step.
\<close>

theorem surplus_clamp:
  assumes "calc_and_distribute_surplus s = Inr s'"
  shows "\<exists>c q. surplus_candidate s = Inr c \<and> quota s = Some q \<and> quota s' = Some q
           \<and> total_value s' c = q"
proof -
  from assms obtain c q where c: "surplus_candidate s = Inr c" and q: "quota s = Some q"
    and s': "s' = (let s1 = fold (transfer_vote ((total_value s c - q) / total_value s c)) (cand_votes s c) s;
               s2 = s1\<lparr>total_value := (total_value s1)(c := q)\<rparr>
           in s2\<lparr>provisional_winners := winners_of s2 q\<rparr>)"
    by (rule calc_result)
  have "total_value s' c = q" "quota s' = Some q" using q unfolding s' by (simp_all add: Let_def)
  with c q show ?thesis by blast
qed

theorem surplus_clamp_witness:
  "calc_and_distribute_surplus round1 = Inr (projr (calc_and_distribute_surplus round1))
   \<and> surplus_candidate round1 = Inr ''A'' \<and> quota round1 = Some 3
   \<and> total_value (projr (calc_and_distribute_surplus round1)) ''A'' = 3"
proof -
  have ok: "check_if_candidates_surplus round1 = Inr True"
    using round1_facts(2-4) by (simp add: check_if_candidates_surplus_def)
  from calc_succeeds[OF ok round1_facts(3)]
  have r: "calc_and_distribute_surplus round1 = Inr (projr (calc_and_distribute_surplus round1))"
    by auto
  from surplus_clamp[OF r] round1_facts(3,6) r show ?thesis by auto
qed

lemma surplus_loop_winner_kept:
  assumes "surplus_loop s = Inr (b, s')" "pw_consistent s" "quota s = Some q"
    "c \<in> set (candidates s)" "total_value s c = q"
  shows "total_value s' c = q \<and> cand_votes s' c = cand_votes s c"
  using assms
proof (induction s rule: surplus_loop.induct)
  case (1 s)
  show ?case
  proof (cases "check_if_candidates_surplus s")
    case (Inl e)
    with "1.prems" show ?thesis by (simp add: surplus_loop.simps[of s])
  next
    case (Inr t)
    show ?thesis
    proof (cases t)
      case False
      with Inr "1.prems" show ?thesis by (simp add: surplus_loop.simps[of s])
    next
      case True
      with Inr "1.prems" obtain s1 where c: "calc_and_distribute_surplus s = Inr s1"
        by (auto simp: surplus_loop.simps[of s] split: sum.splits)
      from c obtain x where x: "surplus_candidate s = Inr x"
        and s1: "s1 = (let s1 = fold (transfer_vote ((total_value s x - q) / total_value s x)) (cand_votes s x) s;
               s2 = s1\<lparr>total_value := (total_value s1)(x := q)\<rparr>
           in s2\<lparr>provisional_winners := winners_of s2 q\<rparr>)"
        using "1.prems"(3) by (auto elim!: calc_result)
      from "1.prems" have cpw: "c \<in> set (provisional_winners s)"
        by (simp add: pw_consistent_def winners_of_def)
      from fold_transfer_winner_untouched[OF cpw] "1.prems"(5)
      have keep: "total_value s1 c = q" "cand_votes s1 c = cand_votes s c"
        unfolding s1 by (simp_all add: Let_def)
      show ?thesis
      proof (cases "check_all_vacancies_filled s1")
        case f: True
        with Inr True c "1.prems" have "s' = s1" by (simp add: surplus_loop.simps[of s])
        with keep show ?thesis by simp
      next
        case f: False
        with Inr True c "1.prems" have rec: "surplus_loop s1 = Inr (b, s')"
          by (simp add: surplus_loop.simps[of s])
        from True have tt: "t = True" by simp
        from "1.IH"[OF Inr tt c f rec calc_consistent[OF c]] calc_frame[OF c] "1.prems" keep
        show ?thesis by simp
      qed
    qed
  qed
qed

text \<open>
  C10. A surplus-distribution step allocates votes only to candidates outside
  \<open>provisional_winners\<close>: the target of every transfer is not a provisional winner, so the
  loop over the votes, and the whole step, leave the vote set of every provisional winner
  as it was and its total too (the step then sets the total of the selected candidate to
  the quota). Through the whole surplus loop of a round, a candidate of the pool whose total
  equals the quota keeps that total and its vote set.
\<close>

theorem no_allocation_to_winners:
  "(transfer_target s v = Some n \<longrightarrow> n \<notin> set (provisional_winners s))
   \<and> (transfer_vote r v s =
        (let s1 = s\<lparr>vote_value := (vote_value s)(v := vote_value s v * r)\<rparr>
         in case transfer_target s v of None \<Rightarrow> s1 | Some n \<Rightarrow> alloc_vote n v s1))
   \<and> (c \<in> set (provisional_winners s) \<longrightarrow>
        cand_votes (fold (transfer_vote r) vs s) c = cand_votes s c
        \<and> total_value (fold (transfer_vote r) vs s) c = total_value s c)
   \<and> (c \<in> set (provisional_winners s) \<and> calc_and_distribute_surplus s = Inr s' \<longrightarrow>
        cand_votes s' c = cand_votes s c
        \<and> (surplus_candidate s \<noteq> Inr c \<longrightarrow> total_value s' c = total_value s c))
   \<and> (pw_consistent s \<and> quota s = Some q \<and> c \<in> set (candidates s) \<and> total_value s c = q
        \<and> surplus_loop s = Inr (b, s'') \<longrightarrow>
        total_value s'' c = q \<and> cand_votes s'' c = cand_votes s c)"
proof (intro conjI impI)
  assume "transfer_target s v = Some n"
  then show "n \<notin> set (provisional_winners s)"
    by (auto simp: transfer_target_def dest: get_preference_excluding_Some)
next
  show "transfer_vote r v s =
        (let s1 = s\<lparr>vote_value := (vote_value s)(v := vote_value s v * r)\<rparr>
         in case transfer_target s v of None \<Rightarrow> s1 | Some n \<Rightarrow> alloc_vote n v s1)"
    by (simp add: transfer_vote_def transfer_target_def get_preference_excluding_def Let_def)
next
  assume "c \<in> set (provisional_winners s)"
  from fold_transfer_winner_untouched[OF this]
  show "cand_votes (fold (transfer_vote r) vs s) c = cand_votes s c"
    "total_value (fold (transfer_vote r) vs s) c = total_value s c" by simp_all
next
  assume a: "c \<in> set (provisional_winners s) \<and> calc_and_distribute_surplus s = Inr s'"
  then obtain x q where x: "surplus_candidate s = Inr x"
    and s': "s' = (let s1 = fold (transfer_vote ((total_value s x - q) / total_value s x)) (cand_votes s x) s;
               s2 = s1\<lparr>total_value := (total_value s1)(x := q)\<rparr>
           in s2\<lparr>provisional_winners := winners_of s2 q\<rparr>)"
    by (auto elim!: calc_result)
  from a fold_transfer_winner_untouched[of c s]
  show "cand_votes s' c = cand_votes s c" unfolding s' by (simp add: Let_def)
  assume "surplus_candidate s \<noteq> Inr c"
  with x have "c \<noteq> x" by auto
  with a fold_transfer_winner_untouched[of c s]
  show "total_value s' c = total_value s c" unfolding s' by (simp add: Let_def)
next
  assume a: "pw_consistent s \<and> quota s = Some q \<and> c \<in> set (candidates s) \<and> total_value s c = q
        \<and> surplus_loop s = Inr (b, s'')"
  with surplus_loop_winner_kept[of s b s'' q c]
  show "total_value s'' c = q" "cand_votes s'' c = cand_votes s c" by simp_all
qed

theorem no_allocation_to_winners_witness:
  "transfer_target round2 6 = Some ''C'' \<and> ''C'' \<notin> set (provisional_winners round2)
   \<and> ''A'' \<in> set (provisional_winners round2)
   \<and> calc_and_distribute_surplus round2 = Inr round2_step
   \<and> cand_votes round2_step ''A'' = cand_votes round2 ''A''
   \<and> total_value round2_step ''A'' = total_value round2 ''A''
   \<and> pw_consistent round2_step \<and> quota round2_step = Some 3
   \<and> ''B'' \<in> set (candidates round2_step) \<and> total_value round2_step ''B'' = 3
   \<and> (\<exists>b s''. surplus_loop round2_step = Inr (b, s'') \<and> total_value s'' ''B'' = 3
         \<and> cand_votes s'' ''B'' = cand_votes round2_step ''B'')"
proof -
  have calc: "calc_and_distribute_surplus round2 = Inr round2_step"
    using round2_step_facts(1) by (simp add: round2_step_def)
  have cons: "pw_consistent round2_step" by (rule calc_consistent[OF calc])
  have q: "quota round2_step = Some 3" using calc_frame(2)[OF calc] round2_facts(4) by simp
  have cs: "''B'' \<in> set (candidates round2_step)"
    using calc_frame(1)[OF calc] round2_facts(3) by simp
  from surplus_loop_succeeds[OF q] obtain b s'' where l: "surplus_loop round2_step = Inr (b, s'')"
    by auto
  have a: "''A'' \<in> set (provisional_winners round2)" "surplus_candidate round2 \<noteq> Inr ''A''"
    using round2_facts(7,10) by simp_all
  note step = no_allocation_to_winners[of round2 6 "''C''" _ "''A''" _ round2_step]
  note loop = no_allocation_to_winners[of round2_step _ _ _ "''B''" _ _ 3 b s'']
  from step a calc round2_step_facts(6)
  have 1: "''C'' \<notin> set (provisional_winners round2)"
    "cand_votes round2_step ''A'' = cand_votes round2 ''A''"
    "total_value round2_step ''A'' = total_value round2 ''A''" by blast+
  from loop cons q cs round2_step_facts(2) l
  have 2: "total_value s'' ''B'' = 3" "cand_votes s'' ''B'' = cand_votes round2_step ''B''"
    by blast+
  from 1 2 a calc cons q cs round2_step_facts(2,6) l show ?thesis by blast
qed

subsection \<open>Distribution of preferences\<close>

lemma fold_reset_total:
  "total_value (fold reset_candidate cs s) c = (if c \<in> set cs then 0 else total_value s c)"
  by (induction cs arbitrary: s) (auto simp: reset_candidate_def)

lemma fold_reset_cand_votes:
  "cand_votes (fold reset_candidate cs s) c = (if c \<in> set cs then [] else cand_votes s c)"
  by (induction cs arbitrary: s) (auto simp: reset_candidate_def)

lemma exhausted_filter:
  "filter (\<lambda>v. v \<notin> set (filter P vs)) vs = filter (\<lambda>v. \<not> P v) vs"
  by (rule filter_cong) auto

lemma filter_mem_imp: "filter (\<lambda>v. v \<in> set vs \<longrightarrow> Q v) vs = filter Q vs"
  by (rule filter_cong) auto

lemma distribute_vote_result:
  assumes "total_votes s = Some t" "preference s v \<noteq> []"
  shows "distribute_vote v s =
     Inr (s\<lparr>vote_value := (vote_value s)(v := 1),
           total_value := (total_value s)(hd (preference s v) := total_value s (hd (preference s v)) + 1),
           cand_votes := (cand_votes s)(hd (preference s v) := set_add v (cand_votes s (hd (preference s v)))),
           total_votes := Some (t + 1)\<rparr>)"
  using assms
  by (cases "preference s v") (simp_all add: distribute_vote_def get_preference_def alloc_vote_def Let_def)

lemma distinct_set_add: "distinct xs \<Longrightarrow> distinct (set_add x xs)"
  by (simp add: set_add_def)

lemma set_set_add: "set (set_add x xs) = insert x (set xs)"
  by (auto simp: set_add_def)

lemma distribute_votes_result:
  assumes "total_votes s = Some t" "\<forall>v\<in>set vs. preference s v \<noteq> []"
  shows "\<exists>s'. distribute_votes vs s = Inr s'
     \<and> total_votes s' = Some (t + real (length vs))
     \<and> (\<forall>v. vote_value s' v = (if v \<in> set vs then 1 else vote_value s v))
     \<and> (\<forall>c. total_value s' c =
              total_value s c + real (length (filter (\<lambda>v. hd (preference s v) = c) vs)))
     \<and> (\<forall>c. set (cand_votes s' c) =
              set (cand_votes s c) \<union> {v \<in> set vs. hd (preference s v) = c})
     \<and> (\<forall>c. distinct (cand_votes s c) \<longrightarrow> distinct (cand_votes s' c))"
  using assms
proof (induction vs arbitrary: s t)
  case Nil
  then show ?case by simp
next
  case (Cons v vs)
  define s1 where "s1 = s\<lparr>vote_value := (vote_value s)(v := 1),
           total_value := (total_value s)(hd (preference s v) := total_value s (hd (preference s v)) + 1),
           cand_votes := (cand_votes s)(hd (preference s v) := set_add v (cand_votes s (hd (preference s v)))),
           total_votes := Some (t + 1)\<rparr>"
  from Cons.prems have step: "distribute_vote v s = Inr s1"
    unfolding s1_def by (intro distribute_vote_result) simp_all
  have p1: "preference s1 = preference s" and t1: "total_votes s1 = Some (t + 1)"
    by (simp_all add: s1_def)
  from Cons.prems p1 have "\<forall>v\<in>set vs. preference s1 v \<noteq> []" by simp
  from Cons.IH[OF t1 this] obtain s' where s': "distribute_votes vs s1 = Inr s'"
     "total_votes s' = Some (t + 1 + real (length vs))"
     "\<forall>v. vote_value s' v = (if v \<in> set vs then 1 else vote_value s1 v)"
     "\<forall>c. total_value s' c =
              total_value s1 c + real (length (filter (\<lambda>v. hd (preference s1 v) = c) vs))"
     "\<forall>c. set (cand_votes s' c) =
              set (cand_votes s1 c) \<union> {v \<in> set vs. hd (preference s1 v) = c}"
     "\<forall>c. distinct (cand_votes s1 c) \<longrightarrow> distinct (cand_votes s' c)"
    by blast
  have a: "distribute_votes (v # vs) s = Inr s'" using step s'(1) by simp
  have b: "total_votes s' = Some (t + real (length (v # vs)))" using s'(2) by simp
  have c: "\<forall>w. vote_value s' w = (if w \<in> set (v # vs) then 1 else vote_value s w)"
    using s'(3) by (simp add: s1_def)
  have d: "\<forall>c. total_value s' c =
              total_value s c + real (length (filter (\<lambda>v. hd (preference s v) = c) (v # vs)))"
    using s'(4) by (simp add: s1_def)
  have e: "\<forall>c. set (cand_votes s' c) =
              set (cand_votes s c) \<union> {w \<in> set (v # vs). hd (preference s w) = c}"
    using s'(5) by (auto simp: s1_def set_set_add)
  have f: "\<forall>c. distinct (cand_votes s c) \<longrightarrow> distinct (cand_votes s' c)"
  proof (intro allI impI)
    fix c assume "distinct (cand_votes s c)"
    then have "distinct (cand_votes s1 c)" by (auto simp: s1_def intro: distinct_set_add)
    with s'(6) show "distinct (cand_votes s' c)" by blast
  qed
  from a b c d e f show ?case by blast
qed



lemma distribution_result:
  assumes "vacancies s \<noteq> - 1"
  shows "\<exists>s'. distribution_of_preferences s = Inr s'
     \<and> candidates s' = candidates s \<and> vacancies s' = vacancies s
     \<and> preference s' = preference s
     \<and> votes s' = active_votes s
     \<and> total_votes s' = Some (real (length (active_votes s)))
     \<and> quota s' = Some (compute_quota (real (length (active_votes s))) (vacancies s))
     \<and> provisional_winners s' =
          winners_of s' (compute_quota (real (length (active_votes s))) (vacancies s))
     \<and> (\<forall>v. vote_value s' v = (if v \<in> set (active_votes s) then 1 else vote_value s v))
     \<and> (\<forall>c. total_value s' c =
           (if c \<in> set (candidates s) then 0 else total_value s c)
           + real (length (filter (\<lambda>v. hd (preference s v) = c) (active_votes s))))
     \<and> (\<forall>c. set (cand_votes s' c) =
           (if c \<in> set (candidates s) then {} else set (cand_votes s c))
           \<union> {v \<in> set (active_votes s). hd (preference s v) = c})
     \<and> (\<forall>c. c \<in> set (candidates s) \<or> distinct (cand_votes s c) \<longrightarrow> distinct (cand_votes s' c))"
proof -
  define s3 where "s3 = (fold reset_candidate (candidates s)
      (s\<lparr>provisional_winners := [], total_votes := Some 0\<rparr>))\<lparr>votes := active_votes s\<rparr>"
  have t3: "total_votes s3 = Some 0" and p3: "preference s3 = preference s"
    and v3: "votes s3 = active_votes s" by (simp_all add: s3_def)
  have ne: "\<forall>v\<in>set (active_votes s). preference s3 v \<noteq> []"
    by (simp add: p3 active_votes_def)
  from distribute_votes_result[OF t3 ne] obtain s4 where s4:
    "distribute_votes (active_votes s) s3 = Inr s4"
    "total_votes s4 = Some (real (length (active_votes s)))"
    "\<forall>v. vote_value s4 v = (if v \<in> set (active_votes s) then 1 else vote_value s3 v)"
    "\<forall>c. total_value s4 c =
              total_value s3 c + real (length (filter (\<lambda>v. hd (preference s3 v) = c) (active_votes s)))"
    "\<forall>c. set (cand_votes s4 c) =
              set (cand_votes s3 c) \<union> {v \<in> set (active_votes s). hd (preference s3 v) = c}"
    "\<forall>c. distinct (cand_votes s3 c) \<longrightarrow> distinct (cand_votes s4 c)"
    by auto
  from distribute_votes_frame[OF s4(1)]
  have fr: "vacancies s4 = vacancies s" "candidates s4 = candidates s" "votes s4 = active_votes s"
    "preference s4 = preference s"
    by (simp_all add: s3_def)
  define q where "q = compute_quota (real (length (active_votes s))) (vacancies s)"
  define s' where "s' = s4\<lparr>quota := Some q, provisional_winners := winners_of (s4\<lparr>quota := Some q\<rparr>) q\<rparr>"
  have shape: "distribution_of_preferences s =
     (case distribute_votes (votes s3) s3 of
           Inl e \<Rightarrow> Inl e
         | Inr s4 \<Rightarrow>
             (case total_votes s4 of
                None \<Rightarrow> Inl AttributeError
              | Some tv \<Rightarrow>
                  if 1 + vacancies s4 = 0 then Inl ZeroDivisionError
                  else (let q = compute_quota tv (vacancies s4);
                            s5 = s4\<lparr>quota := Some q\<rparr>
                        in Inr (s5\<lparr>provisional_winners := winners_of s5 q\<rparr>))))"
    unfolding distribution_of_preferences_def s3_def active_votes_def Let_def
    by (simp add: filter_mem_imp)
  have run: "distribution_of_preferences s = Inr s'"
    unfolding shape v3 using s4(1,2) assms fr(1) by (simp add: Let_def s'_def q_def)
  have w: "winners_of (s4\<lparr>quota := Some q\<rparr>) q = winners_of s' q"
    by (simp add: winners_of_def s'_def)
  have tv3: "total_value s3 c = (if c \<in> set (candidates s) then 0 else total_value s c)" for c
    by (simp add: s3_def fold_reset_total)
  have cv3: "cand_votes s3 c = (if c \<in> set (candidates s) then [] else cand_votes s c)" for c
    by (simp add: s3_def fold_reset_cand_votes)
  have vv3: "vote_value s3 = vote_value s" by (simp add: s3_def)
  show ?thesis
    apply (rule exI[of _ s'])
    apply (intro conjI)
               apply (rule run)
              apply (simp add: s'_def fr)
             apply (simp add: s'_def fr)
            apply (simp add: s'_def fr)
           apply (simp add: s'_def fr)
          apply (simp add: s'_def s4)
         apply (simp add: s'_def q_def)
        apply (simp add: q_def[symmetric] w[symmetric]) apply (simp add: s'_def)
       apply (simp add: s'_def s4 vv3)
      apply (simp add: s'_def s4 tv3 p3)
     apply (simp add: s'_def s4 cv3 p3)
    apply (auto simp add: s'_def s4 cv3)
    done
qed

lemma fold_add_candidate_frame [simp]:
  "vacancies (fold add_candidate ns s) = vacancies s"
  "votes (fold add_candidate ns s) = votes s"
  "preference (fold add_candidate ns s) = preference s"
  "vote_value (fold add_candidate ns s) = vote_value s"
  "provisional_winners (fold add_candidate ns s) = provisional_winners s"
  "quota (fold add_candidate ns s) = quota s"
  "total_votes (fold add_candidate ns s) = total_votes s"
  by (induction ns arbitrary: s) (simp_all add: add_candidate_def)

lemma fold_add_ballot_vacancies [simp]: "vacancies (fold add_ballot bs s) = vacancies s"
  by (induction bs arbitrary: s) (simp_all add: add_ballot_def Let_def)

lemma init_state_vacancies [simp]: "vacancies (init_state vac ballots) = vac"
  by (simp add: init_state_def empty_state_def)

lemma sum_list_all_one: "(\<And>v. v \<in> set vs \<Longrightarrow> f v = (1::real)) \<Longrightarrow> sum_list (map f vs) = real (length vs)"
  by (induction vs) simp_all

text \<open>
  C4. When \<open>1 + vacancies\<close> is not zero (in \<open>elect\<close> the step runs only with
  \<open>vacancies \<ge> 1\<close>), the distribution step returns; the votes it keeps are those with a
  non-empty preference list, \<open>total_votes\<close> is the sum of their values, and the quota is
  \<open>floor (total_votes / (vacancies + 1)) + 1\<close>, a function of these two numbers only.
\<close>

theorem quota_formula:
  assumes "vacancies s \<noteq> - 1"
  shows "\<exists>s' tv. distribution_of_preferences s = Inr s'
           \<and> votes s' = active_votes s
           \<and> total_votes s' = Some tv
           \<and> tv = sum_list (map (vote_value s') (votes s'))
           \<and> quota s' = Some (real_of_int \<lfloor>tv / real_of_int (vacancies s + 1)\<rfloor> + 1)"
proof -
  from distribution_result[OF assms] obtain s' where s':
    "distribution_of_preferences s = Inr s'" "votes s' = active_votes s"
    "total_votes s' = Some (real (length (active_votes s)))"
    "quota s' = Some (compute_quota (real (length (active_votes s))) (vacancies s))"
    "\<forall>v. vote_value s' v = (if v \<in> set (active_votes s) then 1 else vote_value s v)"
    by blast
  have "sum_list (map (vote_value s') (votes s')) = real (length (active_votes s))"
    unfolding s'(2) by (rule sum_list_all_one) (simp add: s'(5))
  with s' show ?thesis by (simp add: compute_quota_def add.commute)
qed

theorem quota_formula_witness:
  "vacancies (init_state 2 ballots1) \<noteq> - 1
   \<and> distribution_of_preferences (init_state 2 ballots1) = Inr round1
   \<and> total_votes round1 = Some 6 \<and> quota round1 = Some 3"
proof -
  have v: "vacancies (init_state 2 ballots1) \<noteq> - 1" by simp
  have r: "distribution_of_preferences (init_state 2 ballots1) = Inr round1"
    using round1_facts(1) by (simp add: round1_def)
  have t: "total_votes round1 = Some 6" by (simp add: round1_def ballots1_def eval_defs)
  from quota_formula[OF v] r t round1_facts(3) show ?thesis by auto
qed

subsection \<open>The election run\<close>

lemma compute_quota_ge1: "0 \<le> tv \<Longrightarrow> 0 \<le> vac \<Longrightarrow> 1 \<le> compute_quota tv vac"
proof -
  assume "0 \<le> tv" "0 \<le> vac"
  then have "0 \<le> tv / real_of_int (1 + vac)" by simp
  then have "0 \<le> \<lfloor>tv / real_of_int (1 + vac)\<rfloor>" by simp
  then show ?thesis by (simp add: compute_quota_def)
qed

lemma not_filled_vacancies:
  "\<not> check_all_vacancies_filled s \<Longrightarrow>
     1 \<le> vacancies s \<and> nat (vacancies s) < length (candidates s)"
  by (auto simp: check_all_vacancies_filled_def)

lemma surplus_loop_True: "surplus_loop s = Inr (True, s') \<Longrightarrow> check_all_vacancies_filled s'"
proof (induction s rule: surplus_loop.induct)
  case (1 s)
  from "1.prems" obtain t where t: "check_if_candidates_surplus s = Inr t"
    by (auto simp: surplus_loop.simps[of s] split: sum.splits)
  show ?case
  proof (cases t)
    case False
    with t "1.prems" show ?thesis by (simp add: surplus_loop.simps[of s])
  next
    case True
    with t "1.prems" obtain s1 where c: "calc_and_distribute_surplus s = Inr s1"
      by (auto simp: surplus_loop.simps[of s] split: sum.splits)
    show ?thesis
    proof (cases "check_all_vacancies_filled s1")
      case f: True
      with t True c "1.prems" show ?thesis by (simp add: surplus_loop.simps[of s])
    next
      case f: False
      from True have tt: "t = True" by simp
      from t True c f "1.prems" have "surplus_loop s1 = Inr (True, s')"
        by (simp add: surplus_loop.simps[of s])
      from "1.IH"[OF t tt c f this] show ?thesis .
    qed
  qed
qed

lemma exclusion_succeeds:
  "candidates s \<noteq> [] \<Longrightarrow> \<exists>s'. exclusion_of_candidates r s = Inr s'"
  by (simp add: exclusion_of_candidates_def Let_def)

lemma exclusion_frame:
  assumes "exclusion_of_candidates r s = Inr s'"
  shows "vacancies s' = vacancies s" "votes s' = votes s" "vote_value s' = vote_value s"
    "total_value s' = total_value s" "cand_votes s' = cand_votes s"
    "provisional_winners s' = provisional_winners s" "quota s' = quota s"
    "total_votes s' = total_votes s"
  using assms by (auto simp: exclusion_of_candidates_def Let_def split: if_splits)

lemma elect_loop_succeeds:
  "\<exists>m s'. elect_loop rnd n s = Inr (m, s') \<and> check_all_vacancies_filled s'
      \<and> vacancies s' = vacancies s
      \<and> m \<le> n + (length (candidates s) - nat (vacancies s))"
proof (induction rnd n s rule: elect_loop.induct)
  case (1 rnd n s)
  show ?case
  proof (cases "check_all_vacancies_filled s")
    case True
    then show ?thesis by (simp add: elect_loop.simps[of rnd n s])
  next
    case nf: False
    from not_filled_vacancies[OF nf] have vac: "1 \<le> vacancies s"
      and len: "nat (vacancies s) < length (candidates s)" by simp_all
    from vac have "vacancies s \<noteq> - 1" by simp
    from distribution_result[OF this] obtain s1 where d: "distribution_of_preferences s = Inr s1"
      and fr1: "candidates s1 = candidates s" "vacancies s1 = vacancies s"
      and q1: "quota s1 = Some (compute_quota (real (length (active_votes s))) (vacancies s))"
      by blast
    show ?thesis
    proof (cases "check_all_vacancies_filled s1")
      case True
      with nf d fr1 len show ?thesis by (simp add: elect_loop.simps[of rnd n s])
    next
      case nf1: False
      have "0 \<le> compute_quota (real (length (active_votes s))) (vacancies s)"
        using compute_quota_ge1[of "real (length (active_votes s))" "vacancies s"] vac by simp
      from surplus_loop_succeeds[OF q1 this] obtain b s2 where l: "surplus_loop s1 = Inr (b, s2)"
        by blast
      from surplus_loop_frame[OF l] fr1
      have fr2: "candidates s2 = candidates s" "vacancies s2 = vacancies s" by simp_all
      show ?thesis
      proof (cases b)
        case True
        with l have "surplus_loop s1 = Inr (True, s2)" by simp
        then have "check_all_vacancies_filled s2" by (rule surplus_loop_True)
        with nf d nf1 l True fr2 len show ?thesis by (simp add: elect_loop.simps[of rnd n s])
      next
        case False
        from len fr2 have "candidates s2 \<noteq> []" by auto
        from exclusion_succeeds[OF this] obtain s3
          where e: "exclusion_of_candidates (rnd (n + 1)) s2 = Inr s3" by blast
        from exclusion_candidates(3)[OF e] exclusion_frame(1)[OF e] fr2
        have fr3: "Suc (length (candidates s3)) = length (candidates s)"
          "vacancies s3 = vacancies s" by simp_all
        have pr: "(b, s2) = (b, s2)" ..
        from False have bf: "b = False" by simp
        from "1.IH"[OF nf d nf1 l pr bf e] obtain m s' where
          r: "elect_loop rnd (n + 1) s3 = Inr (m, s')" "check_all_vacancies_filled s'"
             "vacancies s' = vacancies s3"
             "m \<le> n + 1 + (length (candidates s3) - nat (vacancies s3))" by blast
        have "elect_loop rnd n s = Inr (m, s')"
          using nf d nf1 l False e r(1) by (simp add: elect_loop.simps[of rnd n s])
        moreover have "m \<le> n + (length (candidates s) - nat (vacancies s))"
          using r(4) fr3 len by simp
        ultimately show ?thesis using r(2,3) fr3(2) by simp
      qed
    qed
  qed
qed

lemma surplus_measure_le: "surplus_measure s \<le> length (candidates s)"
  by (simp add: surplus_measure_def split: option.splits)

lemma surplus_measure_pos:
  assumes "check_if_candidates_surplus s = Inr True"
  shows "0 < surplus_measure s"
proof -
  from assms obtain q c where q: "quota s = Some q" and c: "c \<in> set (candidates s)" "q < total_value s c"
    by (auto simp: check_if_candidates_surplus_def split: if_splits option.splits)
  then have "c \<in> set (filter (\<lambda>c. total_value s c \<noteq> q) (candidates s))" by simp
  then have "0 < length (filter (\<lambda>c. total_value s c \<noteq> q) (candidates s))"
    by (rule length_pos_if_in_set)
  with q show ?thesis by (simp add: surplus_measure_def)
qed

lemma surplus_iterations_bound:
  "surplus_iterations s \<le>
     (if pw_consistent s then surplus_measure s else 1 + length (candidates s))"
proof (induction s rule: surplus_iterations.induct)
  case (1 s)
  show ?case
  proof (cases "check_if_candidates_surplus s")
    case (Inl e)
    then show ?thesis by (simp add: surplus_iterations.simps[of s])
  next
    case (Inr t)
    show ?thesis
    proof (cases t)
      case False
      with Inr show ?thesis by (simp add: surplus_iterations.simps[of s])
    next
      case True
      with Inr have chk: "check_if_candidates_surplus s = Inr True" by simp
      note pos = surplus_measure_pos[OF chk]
      show ?thesis
      proof (cases "calc_and_distribute_surplus s")
        case (Inl e)
        with chk pos show ?thesis by (simp add: surplus_iterations.simps[of s])
      next
        case c: (Inr s1)
        show ?thesis
        proof (cases "check_all_vacancies_filled s1")
          case f: True
          with chk c pos show ?thesis by (simp add: surplus_iterations.simps[of s])
        next
          case f: False
          from True have tt: "t = True" by simp
          from "1.IH"[OF Inr tt c f] calc_consistent[OF c]
          have ih: "surplus_iterations s1 \<le> surplus_measure s1" by simp
          have it: "surplus_iterations s = 1 + surplus_iterations s1"
            using chk c f by (simp add: surplus_iterations.simps[of s])
          show ?thesis
          proof (cases "pw_consistent s")
            case True
            from calc_measure_less[OF c True] ih it True show ?thesis by simp
          next
            case False
            from surplus_measure_le[of s1] calc_frame(1)[OF c] ih it False show ?thesis by simp
          qed
        qed
      qed
    qed
  qed
qed

text \<open>
  C3, as stated, bounds the rounds by the number of initial candidates minus the vacancies
  plus one. With one candidate and three vacancies this number is \<open>-1\<close>; the election
  is decided before the first round and runs no round.
\<close>

theorem no_round_below_claimed_bound:
  "candidates (init_state 3 ballots4) = [''A'']
   \<and> WrightSystem 3 ballots4 (\<lambda>_. 0) = Inr (0, init_state 3 ballots4)
   \<and> \<not> (int 0 \<le> int (length (candidates (init_state 3 ballots4))) - 3 + 1)"
proof -
  have c: "candidates (init_state 3 ballots4) = [''A'']"
    by (simp add: ballots4_def eval_defs)
  then have f: "check_all_vacancies_filled (init_state 3 ballots4)"
    by (simp add: check_all_vacancies_filled_def)
  then have "WrightSystem 3 ballots4 (\<lambda>_. 0) = Inr (0, init_state 3 ballots4)"
    by (simp add: WrightSystem_def elect_def elect_loop.simps[of _ 0 "init_state 3 ballots4"])
  with c show ?thesis by simp
qed

text \<open>
  C3, amended. For every number of vacancies, every list of ballots and every sequence of
  draws, the election started by the constructor returns without an error in a state in
  which all vacancies are filled. The number of rounds is at most the number of initial
  candidates minus the vacancies where that is positive and zero otherwise; it is within
  the stated bound, that difference plus one, whenever the vacancies exceed the candidates
  by at most one. The surplus loop makes at most one pass more than there are candidates
  from any state, and at most as many passes as there are candidates from a state in
  which \<open>provisional_winners\<close> is up to date, as it is after the distribution step.
\<close>

theorem election_terminates:
  "\<exists>m s'. WrightSystem vac ballots rnd = Inr (m, s') \<and> check_all_vacancies_filled s'
     \<and> int m \<le> max 0 (int (length (candidates (init_state vac ballots))) - vac)
     \<and> (vac \<le> int (length (candidates (init_state vac ballots))) + 1 \<longrightarrow>
          int m \<le> int (length (candidates (init_state vac ballots))) - vac + 1)
     \<and> surplus_iterations s \<le> 1 + length (candidates s)
     \<and> (pw_consistent s \<longrightarrow> surplus_iterations s \<le> length (candidates s))"
proof -
  from elect_loop_succeeds[of rnd 0 "init_state vac ballots"]
  obtain m s' where r: "elect_loop rnd 0 (init_state vac ballots) = Inr (m, s')"
    "check_all_vacancies_filled s'"
    "m \<le> length (candidates (init_state vac ballots)) - nat vac" by auto
  from r(3) have b: "int m \<le> max 0 (int (length (candidates (init_state vac ballots))) - vac)"
    by linarith
  have i: "surplus_iterations s \<le> 1 + length (candidates s)"
    "pw_consistent s \<longrightarrow> surplus_iterations s \<le> length (candidates s)"
    using surplus_iterations_bound[of s] surplus_measure_le[of s] by (auto split: if_splits)
  from r(1,2) b i show ?thesis by (auto simp: WrightSystem_def elect_def)
qed

theorem election_terminates_witness:
  "(2 :: int) \<le> int (length (candidates (init_state 2 ballots1))) + 1 \<and>
   (\<exists>m s'. WrightSystem 2 ballots1 (\<lambda>_. 0) = Inr (m, s') \<and> check_all_vacancies_filled s'
      \<and> int m \<le> 2)
   \<and> pw_consistent round1 \<and> surplus_iterations round1 \<le> 3"
proof -
  have c: "candidates (init_state 2 ballots1) = [''A'', ''B'', ''C'']"
    by (simp add: ballots1_def eval_defs)
  have p: "pw_consistent round1"
    by (simp add: pw_consistent_def winners_of_def round1_def ballots1_def eval_defs)
  from election_terminates[of 2 ballots1 "\<lambda>_. 0" round1] c p round1_facts(2)
  show ?thesis by auto
qed

text \<open>
  C9. \<open>get_winners\<close> raises exactly in the states in which \<open>check_all_vacancies_filled\<close>
  is false. The constructor runs \<open>elect\<close>, which always returns in a state where the
  check is true, so the query on the constructed object returns a list of winners. The
  query reads the state and assigns no field: every later call is applied to the same
  state and returns the same list.
\<close>

theorem winners_query:
  "(isl (get_winners s) \<longleftrightarrow> \<not> check_all_vacancies_filled s)
   \<and> (\<exists>m s' w. WrightSystem vac ballots rnd = Inr (m, s') \<and> check_all_vacancies_filled s'
         \<and> get_winners s' = Inr w
         \<and> w = (if int (length (candidates s')) \<le> vacancies s' then candidates s'
                else provisional_winners s'))"
proof
  show "isl (get_winners s) \<longleftrightarrow> \<not> check_all_vacancies_filled s"
    by (auto simp: get_winners_def check_all_vacancies_filled_def)
next
  from elect_loop_succeeds[of rnd 0 "init_state vac ballots"]
  obtain m s' where r: "elect_loop rnd 0 (init_state vac ballots) = Inr (m, s')"
    "check_all_vacancies_filled s'" by auto
  from r(2) have "get_winners s' = Inr (if int (length (candidates s')) \<le> vacancies s'
      then candidates s' else provisional_winners s')"
    by (auto simp: get_winners_def check_all_vacancies_filled_def)
  with r show "\<exists>m s' w. WrightSystem vac ballots rnd = Inr (m, s') \<and> check_all_vacancies_filled s'
         \<and> get_winners s' = Inr w
         \<and> w = (if int (length (candidates s')) \<le> vacancies s' then candidates s'
                else provisional_winners s')"
    by (auto simp: WrightSystem_def elect_def)
qed

theorem winners_query_witness:
  "isl (get_winners round1) \<and> \<not> check_all_vacancies_filled round1
   \<and> (\<exists>m s' w. WrightSystem 2 ballots1 (\<lambda>_. 0) = Inr (m, s') \<and> get_winners s' = Inr w)"
proof -
  have "\<not> check_all_vacancies_filled round1"
    by (simp add: round1_def ballots1_def eval_defs)
  with winners_query[of round1 2 ballots1 "\<lambda>_. 0"] show ?thesis by blast
qed

subsection \<open>Exclusion\<close>

text \<open>
  For every draw, exclusion on a non-empty pool returns and removes exactly one candidate
  from the pool. From the preference list of a vote it removes the first occurrence of
  the excluded candidate only (\<open>list.remove\<close>), so the candidate is gone from the list
  when it occurred there at most once.
\<close>

lemma remove_excluded_preference:
  "preference (remove_excluded x v s) = (preference s)(v := remove1 x (preference s v))"
  by (auto simp: remove_excluded_def remove1_idem)

lemma fold_remove_excluded_preference:
  "preference (fold (remove_excluded x) vs s) v = (remove1 x ^^ count_list vs v) (preference s v)"
proof (induction vs arbitrary: s)
  case Nil
  then show ?case by simp
next
  case (Cons w vs)
  show ?case
    by (simp add: Cons.IH remove_excluded_preference funpow_swap1)
qed

lemma count_list_remove1_same: "count_list (remove1 x xs) x = count_list xs x - 1"
  by (induction xs) auto

lemma in_remove1_count: "x \<in> set (remove1 x xs) \<longleftrightarrow> 2 \<le> count_list xs x"
proof -
  have "x \<in> set (remove1 x xs) \<longleftrightarrow> count_list (remove1 x xs) x \<noteq> 0"
    using count_list_0_iff[of "remove1 x xs" x] by auto
  also have "\<dots> \<longleftrightarrow> 2 \<le> count_list xs x"
    unfolding count_list_remove1_same by arith
  finally show ?thesis .
qed

lemma exclusion_shrinks:
  assumes "candidates s \<noteq> []"
  shows "\<exists>s'. exclusion_of_candidates r s = Inr s'
     \<and> Suc (length (candidates s')) = length (candidates s)
     \<and> candidates s' = remove1 (random_choice r (minimum_votes s)) (candidates s)
     \<and> (\<forall>v. preference s' v =
           (remove1 (random_choice r (minimum_votes s)) ^^ count_list (votes s) v) (preference s v))"
proof -
  from exclusion_succeeds[OF assms] obtain s' where e: "exclusion_of_candidates r s = Inr s'"
    by blast
  from assms e have "s' = (fold (remove_excluded (random_choice r (minimum_votes s))) (votes s) s)
      \<lparr>candidates := remove1 (random_choice r (minimum_votes s)) (candidates s)\<rparr>"
    by (simp add: exclusion_of_candidates_def Let_def)
  then have "\<forall>v. preference s' v =
           (remove1 (random_choice r (minimum_votes s)) ^^ count_list (votes s) v) (preference s v)"
    by (simp add: fold_remove_excluded_preference)
  with e exclusion_candidates(2,3)[OF e] show ?thesis by blast
qed

lemma count_list_distinct: "distinct xs \<Longrightarrow> x \<in> set xs \<Longrightarrow> count_list xs x = 1"
  by (induction xs) (auto simp: count_list_0_iff)

lemma exclusion_removes_single:
  assumes e: "exclusion_of_candidates r s = Inr s'" and d: "distinct (votes s)"
    and v: "v \<in> set (votes s)"
    and once: "count_list (preference s v) (random_choice r (minimum_votes s)) \<le> 1"
  shows "random_choice r (minimum_votes s) \<notin> set (preference s' v)"
proof -
  from e have ne: "candidates s \<noteq> []" by (rule exclusion_candidates(1))
  from d v have "count_list (votes s) v = 1" by (rule count_list_distinct)
  with exclusion_shrinks[OF ne, of r] e
  have "preference s' v = remove1 (random_choice r (minimum_votes s)) (preference s v)" by auto
  with once show ?thesis by (simp add: in_remove1_count)
qed

text \<open>
  C2. In the election with five ballots, the exclusion step of round 1 excludes A for
  every draw and the pool shrinks from three candidates to two, but ballot 1, which
  named A twice, still names A afterwards.
\<close>

theorem exclusion_leaves_repeated_candidate:
  "\<not> check_all_vacancies_filled (init_state 1 ballots3)
   \<and> distribution_of_preferences (init_state 1 ballots3) = Inr round3
   \<and> \<not> check_all_vacancies_filled round3
   \<and> surplus_loop round3 = Inr (False, round3)
   \<and> votes round3 = [1, 2, 3, 4, 5]
   \<and> preference round3 1 = [''A'', ''A'']
   \<and> random_choice r (minimum_votes round3) = ''A''
   \<and> exclusion_of_candidates r round3 = Inr (round3_excluded r)
   \<and> candidates (round3_excluded r) = [''B'', ''C'']
   \<and> preference (round3_excluded r) 1 = [''A'']"
proof -
  have d: "distribution_of_preferences (init_state 1 ballots3) = Inr round3"
    using round3_facts(2) by (simp add: round3_def)
  have l: "surplus_loop round3 = Inr (False, round3)"
    using round3_facts(4) by (simp add: surplus_loop.simps[of round3])
  have v: "votes round3 = [1, 2, 3, 4, 5]" by (simp add: round3_def ballots3_def eval_defs)
  have x: "random_choice r (minimum_votes round3) = ''A''"
    by (simp add: round3_facts(7) random_choice_def)
  have e: "exclusion_of_candidates r round3 = Inr (round3_excluded r)"
    using round3_excluded_facts(1)[of r] by (simp add: round3_excluded_def)
  from round3_facts(1,3,6) d l v x e round3_excluded_facts(2,3) show ?thesis by simp
qed

subsection \<open>Value conservation\<close>

text \<open>
  When the first preference of every vote that the distribution step keeps is a candidate
  of the pool, the values of the kept votes, \<open>total_votes\<close> and the totals of the
  candidates of the pool all have the same sum after the step.
\<close>

lemma sum_list_indicator:
  "distinct cs \<Longrightarrow> x \<in> set cs \<Longrightarrow> sum_list (map (\<lambda>c. if x = c then (1::real) else 0) cs) = 1"
proof (induction cs)
  case Nil
  then show ?case by simp
next
  case (Cons c cs)
  show ?case
  proof (cases "x = c")
    case True
    with Cons.prems have "x \<notin> set cs" by simp
    then have "sum_list (map (\<lambda>c. if x = c then (1::real) else 0) cs) = 0"
      by (induction cs) auto
    with True show ?thesis by simp
  next
    case False
    with Cons show ?thesis by simp
  qed
qed

lemma sum_list_head_counts:
  assumes "distinct cs" "\<forall>v\<in>set vs. h v \<in> set cs"
  shows "sum_list (map (\<lambda>c. real (length (filter (\<lambda>v. h v = c) vs))) cs) = real (length vs)"
  using assms(2)
proof (induction vs)
  case Nil
  then show ?case by simp
next
  case (Cons v vs)
  have "sum_list (map (\<lambda>c. real (length (filter (\<lambda>v. h v = c) (v # vs)))) cs)
      = sum_list (map (\<lambda>c. (if h v = c then 1 else 0) + real (length (filter (\<lambda>v. h v = c) vs))) cs)"
    by (rule arg_cong[where f = sum_list], rule map_cong) simp_all
  also have "\<dots> = sum_list (map (\<lambda>c. if h v = c then (1::real) else 0) cs)
      + sum_list (map (\<lambda>c. real (length (filter (\<lambda>v. h v = c) vs))) cs)"
    by (simp add: sum_list_addf)
  also have "\<dots> = 1 + real (length vs)"
    using Cons sum_list_indicator[OF assms(1), of "h v"] by simp
  finally show ?case by simp
qed

lemma value_conservation_closed:
  assumes vac: "vacancies s \<noteq> - 1" and dc: "distinct (candidates s)"
    and closed: "\<forall>v\<in>set (active_votes s). hd (preference s v) \<in> set (candidates s)"
  shows "\<exists>s' tv. distribution_of_preferences s = Inr s' \<and> total_votes s' = Some tv
      \<and> sum_list (map (vote_value s') (votes s')) = tv
      \<and> sum_list (map (total_value s') (candidates s')) = tv"
proof -
  from distribution_result[OF vac] obtain s' where s':
    "distribution_of_preferences s = Inr s'" "votes s' = active_votes s"
    "candidates s' = candidates s"
    "total_votes s' = Some (real (length (active_votes s)))"
    "\<forall>v. vote_value s' v = (if v \<in> set (active_votes s) then 1 else vote_value s v)"
    "\<forall>c. total_value s' c =
           (if c \<in> set (candidates s) then 0 else total_value s c)
           + real (length (filter (\<lambda>v. hd (preference s v) = c) (active_votes s)))"
    by blast
  have a: "sum_list (map (vote_value s') (votes s')) = real (length (active_votes s))"
    unfolding s'(2) by (rule sum_list_all_one) (simp add: s'(5))
  have "sum_list (map (total_value s') (candidates s))
      = sum_list (map (\<lambda>c. real (length (filter (\<lambda>v. hd (preference s v) = c) (active_votes s))))
          (candidates s))"
    by (rule arg_cong[where f = sum_list], rule map_cong) (simp_all add: s'(6))
  also have "\<dots> = real (length (active_votes s))"
    by (rule sum_list_head_counts[OF dc closed])
  finally have b: "sum_list (map (total_value s') (candidates s')) = real (length (active_votes s))"
    by (simp add: s'(3))
  from s'(1,4) a b show ?thesis by blast
qed

text \<open>
  C6. In the election with five ballots, ballot 1 still names the excluded candidate A in
  round 2. The distribution step of round 2 allocates it to the \<open>Candidate\<close> object of
  A, which is no longer in the pool: the five votes have total value 5, and so has
  \<open>total_votes\<close>, but the totals of the remaining candidates B and C sum to 4.
\<close>

theorem excluded_candidate_keeps_votes:
  "\<not> check_all_vacancies_filled (init_state 1 ballots3)
   \<and> distribution_of_preferences (init_state 1 ballots3) = Inr round3
   \<and> \<not> check_all_vacancies_filled round3
   \<and> surplus_loop round3 = Inr (False, round3)
   \<and> exclusion_of_candidates r round3 = Inr (round3_excluded r)
   \<and> \<not> check_all_vacancies_filled (round3_excluded r)
   \<and> distribution_of_preferences (round3_excluded r) = Inr (round3_next r)
   \<and> total_votes (round3_next r) = Some 5
   \<and> sum_list (map (vote_value (round3_next r)) (votes (round3_next r))) = 5
   \<and> candidates (round3_next r) = [''B'', ''C'']
   \<and> sum_list (map (total_value (round3_next r)) (candidates (round3_next r))) = 4"
proof -
  have d: "distribution_of_preferences (init_state 1 ballots3) = Inr round3"
    using round3_facts(2) by (simp add: round3_def)
  have l: "surplus_loop round3 = Inr (False, round3)"
    using round3_facts(4) by (simp add: surplus_loop.simps[of round3])
  have e: "exclusion_of_candidates r round3 = Inr (round3_excluded r)"
    using round3_excluded_facts(1)[of r] by (simp add: round3_excluded_def)
  have n: "distribution_of_preferences (round3_excluded r) = Inr (round3_next r)"
    using round3_next_facts(1)[of r] by (simp add: round3_next_def)
  have sv: "sum_list (map (vote_value (round3_next r)) (votes (round3_next r))) = 5"
    by (simp add: round3_next_def round3_excluded_def round3_def ballots3_def eval_defs)
  have sc: "sum_list (map (total_value (round3_next r)) (candidates (round3_next r))) = 4"
    by (simp add: round3_next_facts)
  from round3_facts(1,3) d l e round3_excluded_facts(5) n round3_next_facts(3,4) sv sc
  show ?thesis by simp
qed

subsection \<open>Totals and allocated votes\<close>

lemma transfer_vote_value:
  "vote_value (transfer_vote r v s) = (vote_value s)(v := vote_value s v * r)"
  by (simp add: transfer_vote_def Let_def split: option.splits)

lemma fold_transfer_value:
  "vote_value (fold (transfer_vote r) vs s) w = vote_value s w * r ^ count_list vs w"
  by (induction vs arbitrary: s) (simp_all add: transfer_vote_value)

lemma calc_vote_value:
  assumes "calc_and_distribute_surplus s = Inr s'" "surplus_candidate s = Inr c" "quota s = Some q"
  shows "vote_value s' v =
     vote_value s v * ((total_value s c - q) / total_value s c) ^ count_list (cand_votes s c) v"
proof -
  from assms(1) obtain c' q' where "surplus_candidate s = Inr c'" "quota s = Some q'"
    and s': "s' = (let s1 = fold (transfer_vote ((total_value s c' - q') / total_value s c')) (cand_votes s c') s;
               s2 = s1\<lparr>total_value := (total_value s1)(c' := q')\<rparr>
           in s2\<lparr>provisional_winners := winners_of s2 q'\<rparr>)"
    by (rule calc_result)
  with assms(2,3) have "c' = c" "q' = q" by simp_all
  with s' show ?thesis by (simp add: Let_def fold_transfer_value)
qed

lemma transfer_vote_total:
  "total_value (transfer_vote r v t) c =
     (if transfer_target t v = Some c then total_value t c + vote_value t v * r
      else total_value t c)"
  by (auto simp: transfer_vote_def transfer_target_def get_preference_excluding_def Let_def
      split: option.splits)

lemma transfer_vote_cand_votes:
  "cand_votes (transfer_vote r v t) c =
     (if transfer_target t v = Some c then set_add v (cand_votes t c) else cand_votes t c)"
  by (auto simp: transfer_vote_def transfer_target_def get_preference_excluding_def Let_def
      split: option.splits)

lemma fold_add_candidate_votes_distinct:
  "distinct (votes s) \<Longrightarrow> distinct (votes (fold add_candidate ns s))"
  by simp

lemma fold_add_ballot_distinct:
  "distinct (votes s) \<Longrightarrow> distinct (votes (fold add_ballot bs s))"
  by (induction bs arbitrary: s) (simp_all add: add_ballot_def Let_def distinct_set_add)

lemma init_state_distinct: "distinct (votes (init_state vac ballots))"
  unfolding init_state_def by (rule fold_add_ballot_distinct) (simp add: empty_state_def)

lemma distribution_votes:
  assumes "distribution_of_preferences s = Inr s'"
  shows "votes s' = active_votes s"
proof -
  from assms have "vacancies s \<noteq> - 1"
    by (auto simp: distribution_of_preferences_def Let_def
        split: sum.splits option.splits if_splits dest!: distribute_votes_frame)
  from distribution_result[OF this] assms show ?thesis by auto
qed

lemma distribution_totals:
  assumes vac: "vacancies s \<noteq> - 1" and dv: "distinct (votes s)"
  shows "\<exists>s'. distribution_of_preferences s = Inr s'
     \<and> (\<forall>c\<in>set (candidates s').
           distinct (cand_votes s' c)
           \<and> (\<forall>v\<in>set (cand_votes s' c). v \<in> set (votes s') \<and> vote_value s' v = 1)
           \<and> total_value s' c = sum_list (map (vote_value s') (cand_votes s' c)))
     \<and> (\<forall>c\<in>set (candidates s'). \<forall>c'\<in>set (candidates s').
           c \<noteq> c' \<longrightarrow> set (cand_votes s' c) \<inter> set (cand_votes s' c') = {})"
proof -
  define A where "A = active_votes s"
  from distribution_result[OF vac] obtain s' where s':
    "distribution_of_preferences s = Inr s'"
    "candidates s' = candidates s"
    "votes s' = A"
    "\<forall>v. vote_value s' v = (if v \<in> set A then 1 else vote_value s v)"
    "\<forall>c. total_value s' c =
           (if c \<in> set (candidates s) then 0 else total_value s c)
           + real (length (filter (\<lambda>v. hd (preference s v) = c) A))"
    "\<forall>c. set (cand_votes s' c) =
           (if c \<in> set (candidates s) then {} else set (cand_votes s c))
           \<union> {v \<in> set A. hd (preference s v) = c}"
    "\<forall>c. c \<in> set (candidates s) \<or> distinct (cand_votes s c) \<longrightarrow> distinct (cand_votes s' c)"
    unfolding A_def by blast
  from dv have dA: "distinct A" by (simp add: A_def active_votes_def)
  have dist: "distinct (cand_votes s' c)" if "c \<in> set (candidates s)" for c
    using that s'(7) by blast
  have vs: "set (cand_votes s' c) = {v \<in> set A. hd (preference s v) = c}"
    if "c \<in> set (candidates s)" for c
    using that s'(6) by simp
  have ones: "\<forall>v\<in>set (cand_votes s' c). v \<in> set (votes s') \<and> vote_value s' v = 1"
    if c: "c \<in> set (candidates s)" for c
    using vs[OF c] s'(3,4) by auto
  have tot: "total_value s' c = sum_list (map (vote_value s') (cand_votes s' c))"
    if c: "c \<in> set (candidates s)" for c
  proof -
    have "sum_list (map (vote_value s') (cand_votes s' c)) = real (length (cand_votes s' c))"
      by (rule sum_list_all_one) (use ones[OF c] in auto)
    also have "length (cand_votes s' c) = card (set (cand_votes s' c))"
      using dist[OF c] by (simp add: distinct_card)
    also have "set (cand_votes s' c) = set (filter (\<lambda>v. hd (preference s v) = c) A)"
      using vs[OF c] by auto
    also have "card \<dots> = length (filter (\<lambda>v. hd (preference s v) = c) A)"
      by (rule distinct_card) (simp add: dA)
    finally show ?thesis using s'(5) c by simp
  qed
  have disj: "set (cand_votes s' c) \<inter> set (cand_votes s' c') = {}"
    if "c \<in> set (candidates s)" "c' \<in> set (candidates s)" "c \<noteq> c'" for c c'
    using that vs by auto
  from s'(1,2) dist ones tot disj show ?thesis by auto
qed

lemma transfer_target_transfer_vote [simp]:
  "transfer_target (transfer_vote r v t) w = transfer_target t w"
  by (simp add: transfer_target_def get_preference_excluding_def)

lemma fold_transfer_untouched:
  "\<forall>v\<in>set vs. transfer_target t v \<noteq> Some c \<Longrightarrow>
     total_value (fold (transfer_vote r) vs t) c = total_value t c
     \<and> cand_votes (fold (transfer_vote r) vs t) c = cand_votes t c"
  by (induction vs arbitrary: t) (simp_all add: transfer_vote_total transfer_vote_cand_votes)

lemma fold_transfer_keeps_votes:
  "set (cand_votes t c) \<subseteq> set (cand_votes (fold (transfer_vote r) vs t) c)"
proof (induction vs arbitrary: t)
  case Nil
  then show ?case by simp
next
  case (Cons v vs)
  have "set (cand_votes t c) \<subseteq> set (cand_votes (transfer_vote r v t) c)"
    by (auto simp: transfer_vote_cand_votes set_set_add)
  with Cons.IH[of "transfer_vote r v t"] show ?case by auto
qed

lemma calc_source:
  assumes c: "calc_and_distribute_surplus s = Inr s'" and x: "surplus_candidate s = Inr x"
    and q: "quota s = Some q"
  shows "total_value s' x = q" "set (cand_votes s x) \<subseteq> set (cand_votes s' x)"
proof -
  from c obtain x' q' where "surplus_candidate s = Inr x'" "quota s = Some q'"
    and s': "s' = (let s1 = fold (transfer_vote ((total_value s x' - q') / total_value s x')) (cand_votes s x') s;
               s2 = s1\<lparr>total_value := (total_value s1)(x' := q')\<rparr>
           in s2\<lparr>provisional_winners := winners_of s2 q'\<rparr>)"
    by (rule calc_result)
  with x q have e: "x' = x" "q' = q" by simp_all
  from s' e show "total_value s' x = q" by (simp add: Let_def)
  from s' e fold_transfer_keeps_votes[of s x]
  show "set (cand_votes s x) \<subseteq> set (cand_votes s' x)" by (simp add: Let_def)
qed

lemma calc_untouched:
  assumes c: "calc_and_distribute_surplus s = Inr s'" and x: "surplus_candidate s = Inr x"
    and ne: "c \<noteq> x"
    and nt: "\<forall>v\<in>set (cand_votes s x). transfer_target s v \<noteq> Some c"
    and dj: "set (cand_votes s c) \<inter> set (cand_votes s x) = {}"
  shows "total_value s' c = total_value s c" "cand_votes s' c = cand_votes s c"
    "\<forall>v\<in>set (cand_votes s c). vote_value s' v = vote_value s v"
    "sum_list (map (vote_value s') (cand_votes s' c)) = sum_list (map (vote_value s) (cand_votes s c))"
proof -
  from c obtain x' q where "surplus_candidate s = Inr x'" and q: "quota s = Some q"
    and s': "s' = (let s1 = fold (transfer_vote ((total_value s x' - q) / total_value s x')) (cand_votes s x') s;
               s2 = s1\<lparr>total_value := (total_value s1)(x' := q)\<rparr>
           in s2\<lparr>provisional_winners := winners_of s2 q\<rparr>)"
    by (rule calc_result)
  with x have e: "x' = x" by simp
  note u = fold_transfer_untouched[OF nt, of "(total_value s x - q) / total_value s x"]
  from s' e ne u show tv: "total_value s' c = total_value s c" by (simp add: Let_def)
  from s' e u show cv: "cand_votes s' c = cand_votes s c" by (simp add: Let_def)
  show vv: "\<forall>v\<in>set (cand_votes s c). vote_value s' v = vote_value s v"
  proof
    fix v assume "v \<in> set (cand_votes s c)"
    with dj have "count_list (cand_votes s x) v = 0" by (auto simp: count_list_0_iff)
    with calc_vote_value[OF c x q, of v] show "vote_value s' v = vote_value s v" by simp
  qed
  show "sum_list (map (vote_value s') (cand_votes s' c)) = sum_list (map (vote_value s) (cand_votes s c))"
    unfolding cv by (rule arg_cong[where f = sum_list], rule map_cong[OF refl]) (simp add: vv)
qed

lemma round2_votes:
  "cand_votes round2 ''A'' = [1, 2, 3, 4, 5]"
  "cand_votes round2 ''B'' = [6, 7, 8, 9]"
  "transfer_target round2 6 = Some ''C''"
  "transfer_target round2 7 = Some ''D''"
  "transfer_target round2 8 = None"
  "transfer_target round2 9 = None"
  "sum_list (map (vote_value round2) (cand_votes round2 ''A'')) = 5"
  by (simp_all add: round2_def ballots2_def eval_defs transfer_target_def)

text \<open>
  C7, as stated, fails after a surplus step: in round 1 of the election with six ballots
  the step sets the total of A to the quota 3, while the four votes in the vote set of A
  have value 1/4 each.
\<close>

theorem clamped_total_differs:
  "distribution_of_preferences (init_state 2 ballots1) = Inr round1
   \<and> calc_and_distribute_surplus round1 = Inr round1_step
   \<and> ''A'' \<in> set (candidates round1_step)
   \<and> total_value round1_step ''A'' = 3
   \<and> sum_list (map (vote_value round1_step) (cand_votes round1_step ''A'')) = 1
   \<and> total_value round1_step ''A''
       \<noteq> sum_list (map (vote_value round1_step) (cand_votes round1_step ''A''))"
proof -
  have d: "distribution_of_preferences (init_state 2 ballots1) = Inr round1"
    using round1_facts(1) by (simp add: round1_def)
  have c: "calc_and_distribute_surplus round1 = Inr round1_step"
    using round1_step_facts(1) by (simp add: round1_step_def)
  from d c round1_step_facts(2,4,6) show ?thesis by simp
qed

text \<open>
  C7, amended. Immediately after the distribution step every candidate of the pool has a
  vote set without repetition, all of whose votes are active and have value 1, and its
  total is the sum of the values of these votes; the vote sets of two candidates of the
  pool share no vote. The votes of the initial state are without repetition and the
  distribution step keeps them so. A surplus step sets the total of the selected candidate
  to the quota and removes no vote from its vote set. It changes neither the total nor the
  vote set nor the value of a vote of any other candidate that is the target of none of
  the transfers and shares no vote with the selected candidate, so total and sum stay
  equal for such a candidate when they were. Exclusion changes no total, no vote set and
  no value. Nothing is stated about the sum for a candidate that receives votes in a
  surplus step.
\<close>

theorem totals_and_vote_sets:
  "(vacancies s \<noteq> - 1 \<and> distinct (votes s) \<longrightarrow>
      (\<exists>s'. distribution_of_preferences s = Inr s'
         \<and> (\<forall>c\<in>set (candidates s').
               distinct (cand_votes s' c)
               \<and> (\<forall>v\<in>set (cand_votes s' c). v \<in> set (votes s') \<and> vote_value s' v = 1)
               \<and> total_value s' c = sum_list (map (vote_value s') (cand_votes s' c)))
         \<and> (\<forall>c\<in>set (candidates s'). \<forall>c'\<in>set (candidates s').
               c \<noteq> c' \<longrightarrow> set (cand_votes s' c) \<inter> set (cand_votes s' c') = {})))
   \<and> distinct (votes (init_state vac ballots))
   \<and> (distribution_of_preferences s = Inr s' \<and> distinct (votes s) \<longrightarrow> distinct (votes s'))
   \<and> (calc_and_distribute_surplus s = Inr s' \<and> surplus_candidate s = Inr x \<and> quota s = Some q \<longrightarrow>
        votes s' = votes s \<and> total_value s' x = q
        \<and> set (cand_votes s x) \<subseteq> set (cand_votes s' x))
   \<and> (calc_and_distribute_surplus s = Inr s' \<and> surplus_candidate s = Inr x \<and> c \<noteq> x
        \<and> (\<forall>v\<in>set (cand_votes s x). transfer_target s v \<noteq> Some c)
        \<and> set (cand_votes s c) \<inter> set (cand_votes s x) = {} \<longrightarrow>
        total_value s' c = total_value s c \<and> cand_votes s' c = cand_votes s c
        \<and> (\<forall>v\<in>set (cand_votes s c). vote_value s' v = vote_value s v)
        \<and> sum_list (map (vote_value s') (cand_votes s' c))
            = sum_list (map (vote_value s) (cand_votes s c)))
   \<and> (exclusion_of_candidates r s = Inr s' \<longrightarrow>
        votes s' = votes s \<and> total_value s' = total_value s \<and> cand_votes s' = cand_votes s
        \<and> vote_value s' = vote_value s \<and> set (candidates s') \<subseteq> set (candidates s))"
proof (intro conjI impI)
  assume "vacancies s \<noteq> - 1 \<and> distinct (votes s)"
  then show "\<exists>s'. distribution_of_preferences s = Inr s'
         \<and> (\<forall>c\<in>set (candidates s').
               distinct (cand_votes s' c)
               \<and> (\<forall>v\<in>set (cand_votes s' c). v \<in> set (votes s') \<and> vote_value s' v = 1)
               \<and> total_value s' c = sum_list (map (vote_value s') (cand_votes s' c)))
         \<and> (\<forall>c\<in>set (candidates s'). \<forall>c'\<in>set (candidates s').
               c \<noteq> c' \<longrightarrow> set (cand_votes s' c) \<inter> set (cand_votes s' c') = {})"
    using distribution_totals by blast
next
  show "distinct (votes (init_state vac ballots))" by (rule init_state_distinct)
next
  assume "distribution_of_preferences s = Inr s' \<and> distinct (votes s)"
  then show "distinct (votes s')" using distribution_votes[of s s'] by (simp add: active_votes_def)
next
  assume a: "calc_and_distribute_surplus s = Inr s' \<and> surplus_candidate s = Inr x \<and> quota s = Some q"
  then show "votes s' = votes s" using calc_frame(4) by blast
  from a calc_source[of s s' x q] show "total_value s' x = q"
    "set (cand_votes s x) \<subseteq> set (cand_votes s' x)" by blast+
next
  assume a: "calc_and_distribute_surplus s = Inr s' \<and> surplus_candidate s = Inr x \<and> c \<noteq> x
        \<and> (\<forall>v\<in>set (cand_votes s x). transfer_target s v \<noteq> Some c)
        \<and> set (cand_votes s c) \<inter> set (cand_votes s x) = {}"
  then have 1: "calc_and_distribute_surplus s = Inr s'" and 2: "surplus_candidate s = Inr x"
    and 3: "c \<noteq> x" and 4: "\<forall>v\<in>set (cand_votes s x). transfer_target s v \<noteq> Some c"
    and 5: "set (cand_votes s c) \<inter> set (cand_votes s x) = {}" by simp_all
  note u = calc_untouched[OF 1 2 3 4 5]
  from u(1) show "total_value s' c = total_value s c" .
  from u(2) show "cand_votes s' c = cand_votes s c" .
  from u(3) show "\<forall>v\<in>set (cand_votes s c). vote_value s' v = vote_value s v" .
  from u(4) show "sum_list (map (vote_value s') (cand_votes s' c))
            = sum_list (map (vote_value s) (cand_votes s c))" .
next
  assume e: "exclusion_of_candidates r s = Inr s'"
  note fr = exclusion_frame[OF e]
  from fr show "votes s' = votes s" "total_value s' = total_value s"
    "cand_votes s' = cand_votes s" "vote_value s' = vote_value s" by simp_all
  from exclusion_candidates(2)[OF e] show "set (candidates s') \<subseteq> set (candidates s)"
    by (simp add: set_remove1_subset)
qed

theorem totals_and_vote_sets_witness:
  "vacancies (init_state 3 ballots2) \<noteq> - 1 \<and> distinct (votes (init_state 3 ballots2))
   \<and> distribution_of_preferences (init_state 3 ballots2) = Inr round2
   \<and> ''A'' \<in> set (candidates round2)
   \<and> total_value round2 ''A'' = sum_list (map (vote_value round2) (cand_votes round2 ''A''))
   \<and> calc_and_distribute_surplus round2 = Inr round2_step
   \<and> surplus_candidate round2 = Inr ''B'' \<and> quota round2 = Some 3
   \<and> total_value round2_step ''B'' = 3
   \<and> set (cand_votes round2 ''A'') \<inter> set (cand_votes round2 ''B'') = {}
   \<and> total_value round2_step ''A'' = 5
   \<and> sum_list (map (vote_value round2_step) (cand_votes round2_step ''A'')) = 5
   \<and> exclusion_of_candidates 0 round2_step = Inr (projr (exclusion_of_candidates 0 round2_step))
   \<and> total_value (projr (exclusion_of_candidates 0 round2_step)) ''A'' = 5"
proof -
  define s3 where "s3 = projr (exclusion_of_candidates 0 round2_step)"
  have v: "vacancies (init_state 3 ballots2) \<noteq> - 1" by simp
  have d: "distribution_of_preferences (init_state 3 ballots2) = Inr round2"
    using round2_facts(2) by (simp add: round2_def)
  have c: "calc_and_distribute_surplus round2 = Inr round2_step"
    using round2_step_facts(1) by (simp add: round2_step_def)
  have a: "''A'' \<in> set (candidates round2)" using round2_facts(3) by simp
  have nt: "\<forall>v\<in>set (cand_votes round2 ''B''). transfer_target round2 v \<noteq> Some ''A''"
    by (simp add: round2_votes)
  have dj: "set (cand_votes round2 ''A'') \<inter> set (cand_votes round2 ''B'') = {}"
    by (simp add: round2_votes)
  from calc_frame(1)[OF c] round2_facts(3) have "candidates round2_step \<noteq> []" by simp
  from exclusion_succeeds[OF this, of 0] have e: "exclusion_of_candidates 0 round2_step = Inr s3"
    by (auto simp: s3_def)
  note t1 = totals_and_vote_sets[of "init_state 3 ballots2" 3 ballots2 round2 "''B''" 3 "''A''" 0]
  note t2 = totals_and_vote_sets[of round2 3 ballots2 round2_step "''B''" 3 "''A''" 0]
  note t3 = totals_and_vote_sets[of round2_step 3 ballots2 s3 "''B''" 3 "''A''" 0]
  from t1 have dv: "distinct (votes (init_state 3 ballots2))" by blast
  from t1 v dv d a
  have eq: "total_value round2 ''A'' = sum_list (map (vote_value round2) (cand_votes round2 ''A''))"
    by auto
  from t2 c round2_facts(4,10) have b: "total_value round2_step ''B'' = 3" by blast
  have ab: "''A'' \<noteq> ''B''" by simp
  from t2 c round2_facts(10) ab nt dj
  have u: "total_value round2_step ''A'' = total_value round2 ''A''"
    "sum_list (map (vote_value round2_step) (cand_votes round2_step ''A''))
      = sum_list (map (vote_value round2) (cand_votes round2 ''A''))" by blast+
  from t3 e have "total_value s3 = total_value round2_step" by blast
  with u round2_facts(5) have x: "total_value s3 ''A'' = 5" by simp
  from v dv d a eq c round2_facts(4,5,10) b dj u round2_votes(7) e x show ?thesis
    unfolding s3_def by simp
qed

end
